theory Spec2Isabelle
  imports Main
begin

section \<open>The negroni middleware stack (negroni.go)\<close>

text \<open>
  The model follows \<^verbatim>\<open>negroni.go\<close>: a \<^verbatim>\<open>Handler\<close> interface value, the
  \<^verbatim>\<open>middleware\<close> struct with its \<^verbatim>\<open>next *middleware\<close> pointer, the recursive
  \<^verbatim>\<open>build\<close>, \<^verbatim>\<open>voidMiddleware\<close>, and the \<^verbatim>\<open>Negroni\<close> struct with \<^verbatim>\<open>New\<close>,
  \<^verbatim>\<open>Use\<close>, \<^verbatim>\<open>Handlers\<close> and \<^verbatim>\<open>ServeHTTP\<close>.

  Go pointers and slices are modelled by an explicit heap: a list of \<^verbatim>\<open>middleware\<close>
  cells addressed by index, and a list of backing arrays for \<^verbatim>\<open>[]Handler\<close> slices.
  A panic is a result value that still carries the state reached.
\<close>

subsection \<open>Results: return, panic, fuel\<close>

datatype 'a result = Returned 'a | Panicked string 'a | OutOfFuel

definition nil_deref :: string where
  "nil_deref = ''runtime error: invalid memory address or nil pointer dereference''"

subsection \<open>Handlers\<close>

text \<open>
  The code a handler's \<^verbatim>\<open>ServeHTTP(rw, r, next)\<close> runs, over a state \<open>'s\<close> that
  stands for the response writer and the request: it returns, panics, calls
  \<^verbatim>\<open>next(rw, r)\<close> and goes on, changes the state and goes on, inspects the
  state to decide how to go on, or runs a part under a deferred \<^verbatim>\<open>recover()\<close>:
  \<open>Recover b h\<close> runs \<open>b\<close> and, when \<open>b\<close> panics (by itself or in a continuation
  it called), stops the panic and runs \<open>h\<close>.
\<close>

datatype 's body =
    Return
  | Panic string
  | Next "'s body"
  | Act "'s \<Rightarrow> 's" "'s body"
  | Look "'s \<Rightarrow> 's body"
  | Recover "'s body" "'s body"

text \<open>
  A non-nil \<^verbatim>\<open>Handler\<close> interface value holds a concrete value: a \<^verbatim>\<open>HandlerFunc\<close>
  (a func value, \<open>None\<close> for the nil func), or a value of some other type that
  implements \<^verbatim>\<open>ServeHTTP\<close>; for the latter the flag tells whether the concrete value
  is a nil pointer, and the body is what its method does with that receiver.
  The nil interface value is \<open>None\<close>.
\<close>

datatype 's dynval =
    FuncVal "'s body option"
  | Impl bool "'s body"

type_synonym 's Handler = "'s dynval option"

text \<open>
  Ghost events, recorded to state properties of the invocation order: \<open>Invoke i\<close>
  when the node at depth \<open>i\<close> of the chain calls \<^verbatim>\<open>m.handler.ServeHTTP\<close>, and
  \<open>Continue i\<close> when the handler at depth \<open>i\<close> calls the \<^verbatim>\<open>next\<close> it was given.
\<close>

datatype event = Invoke nat | Continue nat

record 's world =
  trace :: "event list"
  resp :: 's

definition log :: "event \<Rightarrow> 's world \<Rightarrow> 's world" where
  "log e w = w\<lparr>trace := trace w @ [e]\<rparr>"

primrec exec :: "'s body \<Rightarrow> ('s world \<Rightarrow> 's world result) \<Rightarrow> 's world \<Rightarrow> 's world result" where
  "exec Return k w = Returned w"
| "exec (Panic msg) k w = Panicked msg w"
| "exec (Next b) k w =
     (case k w of
        Returned w' \<Rightarrow> exec b k w'
      | Panicked msg w' \<Rightarrow> Panicked msg w'
      | OutOfFuel \<Rightarrow> OutOfFuel)"
| "exec (Act f b) k w = exec b k (w\<lparr>resp := f (resp w)\<rparr>)"
| "exec (Look f) k w = exec (f (resp w)) k w"
| "exec (Recover b h) k w =
     (case exec b k w of
        Returned w' \<Rightarrow> Returned w'
      | Panicked msg w' \<Rightarrow> exec h k w'
      | OutOfFuel \<Rightarrow> OutOfFuel)"

text \<open>\<^verbatim>\<open>func (h HandlerFunc) ServeHTTP(rw, r, next) { h(rw, r, next) }\<close>: calling a nil
  func panics.\<close>

definition HandlerFunc_ServeHTTP ::
  "'s body option \<Rightarrow> ('s world \<Rightarrow> 's world result) \<Rightarrow> 's world \<Rightarrow> 's world result" where
  "HandlerFunc_ServeHTTP h k w =
     (case h of None \<Rightarrow> Panicked nil_deref w | Some b \<Rightarrow> exec b k w)"

text \<open>The dynamic dispatch of \<^verbatim>\<open>handler.ServeHTTP\<close> on a non-nil interface value.\<close>

fun Handler_ServeHTTP ::
  "'s dynval \<Rightarrow> ('s world \<Rightarrow> 's world result) \<Rightarrow> 's world \<Rightarrow> 's world result" where
  "Handler_ServeHTTP (FuncVal h) k w = HandlerFunc_ServeHTTP h k w"
| "Handler_ServeHTTP (Impl isnil b) k w = exec b k w"

subsection \<open>Chain nodes\<close>

text \<open>\<^verbatim>\<open>type middleware struct { handler Handler; next *middleware }\<close>; a pointer is
  the index of a cell, \<open>None\<close> is the nil pointer.\<close>

record 's middleware =
  handler :: "'s Handler"
  "next" :: "nat option"

text \<open>The zero value \<^verbatim>\<open>middleware{}\<close>.\<close>

definition zero_middleware :: "'s middleware" where
  "zero_middleware = \<lparr>handler = None, next = None\<rparr>"

text \<open>
  \<^verbatim>\<open>func (m middleware) ServeHTTP(rw, r) { m.handler.ServeHTTP(rw, r, m.next.ServeHTTP) }\<close>.
  The method value \<^verbatim>\<open>m.next.ServeHTTP\<close> has a value receiver, so Go dereferences
  \<^verbatim>\<open>m.next\<close> when the argument is evaluated: a nil \<^verbatim>\<open>next\<close> panics before the
  handler runs, and so does a nil \<^verbatim>\<open>handler\<close> interface. The first argument is
  fuel: one unit for each nested continuation call. \<open>N\<close> is the heap of cells,
  \<open>i\<close> the ghost depth of the node. An address outside the heap does not arise in
  Go, where every pointer comes from an allocation; the model lets it panic as nil does.
\<close>

primrec middleware_ServeHTTP ::
  "nat \<Rightarrow> 's middleware list \<Rightarrow> nat \<Rightarrow> 's middleware \<Rightarrow> 's world \<Rightarrow> 's world result" where
  "middleware_ServeHTTP 0 N i m w = OutOfFuel"
| "middleware_ServeHTTP (Suc fuel) N i m w =
     (case next m of
        None \<Rightarrow> Panicked nil_deref w
      | Some p \<Rightarrow>
          if p < length N then
            (case handler m of
               None \<Rightarrow> Panicked nil_deref w
             | Some d \<Rightarrow>
                 Handler_ServeHTTP d
                   (\<lambda>w'. middleware_ServeHTTP fuel N (Suc i) (N ! p) (log (Continue i) w'))
                   (log (Invoke i) w))
          else Panicked nil_deref w)"

text \<open>
  \<^verbatim>\<open>voidMiddleware\<close>: a node with a no-op \<^verbatim>\<open>HandlerFunc\<close> whose \<^verbatim>\<open>next\<close> points to a
  freshly allocated zero \<^verbatim>\<open>middleware{}\<close>.
\<close>

definition voidMiddleware :: "'s middleware list \<Rightarrow> 's middleware \<times> 's middleware list" where
  "voidMiddleware N =
     (\<lparr>handler = Some (FuncVal (Some Return)), next = Some (length N)\<rparr>,
      N @ [zero_middleware])"

text \<open>
  \<^verbatim>\<open>build\<close>. The local \<^verbatim>\<open>var next middleware\<close> has its address taken, so it is a
  heap cell: allocated at the declaration holding the zero value, assigned the
  result of the recursive call (or of \<^verbatim>\<open>voidMiddleware\<close>), and pointed to by the
  node returned. \<^verbatim>\<open>build\<close> only reads its slice, so it takes the slice's elements.
\<close>

fun build :: "'s middleware list \<Rightarrow> 's Handler list \<Rightarrow> 's middleware \<times> 's middleware list" where
  "build N [] = voidMiddleware (N @ [zero_middleware])"
| "build N (h # hs) =
     (let p = length N;
          N0 = N @ [zero_middleware];
          (nx, N1) = (if length (h # hs) > 1 then build N0 hs else voidMiddleware N0)
      in (\<lparr>handler = h, next = Some p\<rparr>, N1[p := nx]))"

subsection \<open>Slices of handlers\<close>

text \<open>A Go slice: the backing array's address, the offset of its first element in
  that array, its length and its capacity.\<close>

record slice =
  arr :: nat
  off :: nat
  len :: nat
  cap :: nat

definition elems :: "'a list list \<Rightarrow> slice \<Rightarrow> 'a list" where
  "elems A s = take (len s) (drop (off s) (A ! arr s))"

definition wf_slice :: "'a list list \<Rightarrow> slice \<Rightarrow> bool" where
  "wf_slice A s = (len s \<le> cap s \<and> (0 < cap s \<longrightarrow> arr s < length A \<and> off s + cap s \<le> length (A ! arr s)))"

text \<open>
  Go's \<^verbatim>\<open>append(s, v)\<close>: within capacity it writes the element after the last one in the
  same backing array; otherwise it allocates a new array that is large enough
  (\<open>grow\<close> is the runtime's growth policy, which the language leaves open),
  copies the elements and adds the new one. \<open>z\<close> fills the spare capacity.
\<close>

definition append1 :: "(nat \<Rightarrow> nat) \<Rightarrow> 'a \<Rightarrow> 'a list list \<Rightarrow> slice \<Rightarrow> 'a \<Rightarrow> slice \<times> 'a list list" where
  "append1 grow z A s v =
     (if len s < cap s then
        (s\<lparr>len := len s + 1\<rparr>, A[arr s := (A ! arr s)[off s + len s := v]])
      else
        (let c = max (len s + 1) (grow (cap s)) in
         (\<lparr>arr = length A, off = 0, len = len s + 1, cap = c\<rparr>,
          A @ [elems A s @ [v] @ replicate (c - (len s + 1)) z])))"

subsection \<open>The stack\<close>

record 's heap =
  nodes :: "'s middleware list"
  arrays :: "'s Handler list list"

text \<open>Go's indexed assignment \<^verbatim>\<open>s[i] = v\<close> to a slice of handlers, which panics out
  of range.\<close>

definition slice_store :: "'s heap \<Rightarrow> slice \<Rightarrow> nat \<Rightarrow> 's Handler \<Rightarrow> 's heap result" where
  "slice_store H s i v =
     (if i < len s then
        Returned (H\<lparr>arrays := (arrays H)[arr s := (arrays H ! arr s)[off s + i := v]]\<rparr>)
      else Panicked ''runtime error: index out of range'' H)"

text \<open>\<^verbatim>\<open>type Negroni struct { middleware middleware; handlers []Handler }\<close>\<close>

record 's Negroni =
  middleware :: "'s middleware"
  handlers :: slice

text \<open>\<^verbatim>\<open>New(handlers ...Handler)\<close>: the variadic parameter is a slice.\<close>

definition New :: "'s heap \<Rightarrow> slice \<Rightarrow> 's Negroni \<times> 's heap" where
  "New H hs =
     (let (m, N') = build (nodes H) (elems (arrays H) hs)
      in (\<lparr>middleware = m, handlers = hs\<rparr>, H\<lparr>nodes := N'\<rparr>))"

text \<open>\<^verbatim>\<open>Use\<close>: panics on the nil interface value before anything is written;
  otherwise appends and rebuilds.\<close>

definition Use ::
  "(nat \<Rightarrow> nat) \<Rightarrow> 's heap \<Rightarrow> 's Negroni \<Rightarrow> 's Handler \<Rightarrow> ('s Negroni \<times> 's heap) result" where
  "Use grow H n h =
     (case h of
        None \<Rightarrow> Panicked ''handler cannot be nil'' (n, H)
      | Some d \<Rightarrow>
          (let (s', A') = append1 grow None (arrays H) (handlers n) h;
               (m, N') = build (nodes H) (elems A' s')
           in Returned (n\<lparr>handlers := s', middleware := m\<rparr>, \<lparr>nodes = N', arrays = A'\<rparr>)))"

text \<open>\<^verbatim>\<open>func (n *Negroni) Handlers() []Handler { return n.handlers }\<close>\<close>

definition Handlers :: "'s Negroni \<Rightarrow> slice" where
  "Handlers n = handlers n"

text \<open>
  \<^verbatim>\<open>func (n *Negroni) ServeHTTP(rw, r) { n.middleware.ServeHTTP(NewResponseWriter(rw), r) }\<close>.
  \<^verbatim>\<open>NewResponseWriter\<close> is defined in another file of the package; it is a
  parameter here, applied to the state the chain is started in.
\<close>

definition Negroni_ServeHTTP ::
  "('s \<Rightarrow> 's) \<Rightarrow> nat \<Rightarrow> 's heap \<Rightarrow> 's Negroni \<Rightarrow> 's world \<Rightarrow> 's world result" where
  "Negroni_ServeHTTP NewResponseWriter fuel H n w =
     middleware_ServeHTTP fuel (nodes H) 0 (middleware n) (w\<lparr>resp := NewResponseWriter (resp w)\<rparr>)"

text \<open>A caller that applies \<^verbatim>\<open>Use\<close> to each handler of a list in turn, recovering
  from the panics and going on.\<close>

fun uses :: "(nat \<Rightarrow> nat) \<Rightarrow> 's Negroni \<times> 's heap \<Rightarrow> 's Handler list \<Rightarrow> 's Negroni \<times> 's heap" where
  "uses grow st [] = st"
| "uses grow st (h # hs) =
     (case Use grow (snd st) (fst st) h of
        Returned st' \<Rightarrow> uses grow st' hs
      | Panicked msg st' \<Rightarrow> uses grow st' hs
      | OutOfFuel \<Rightarrow> st)"

subsection \<open>Reading a chain back from the heap\<close>

text \<open>The chain that starts at a node, read by following \<^verbatim>\<open>next\<close> pointers;
  \<open>Nil_ptr\<close> is the nil pointer. The fuel bounds the number of nodes read.\<close>

datatype 's chain = Nil_ptr | Node "'s Handler" "'s chain"

primrec chain_of :: "nat \<Rightarrow> 's middleware list \<Rightarrow> 's middleware \<Rightarrow> 's chain option" where
  "chain_of 0 N m = None"
| "chain_of (Suc fuel) N m =
     (case next m of
        None \<Rightarrow> Some (Node (handler m) Nil_ptr)
      | Some p \<Rightarrow>
          if p < length N then map_option (Node (handler m)) (chain_of fuel N (N ! p))
          else None)"

text \<open>The terminal node as \<^verbatim>\<open>voidMiddleware\<close> makes it: the no-op handler, followed
  by the zero node.\<close>

definition terminal :: "'s chain" where
  "terminal = Node (Some (FuncVal (Some Return))) (Node None Nil_ptr)"

text \<open>The node reached from \<open>m\<close> after \<open>j\<close> steps along \<^verbatim>\<open>next\<close>.\<close>

primrec nth_node :: "nat \<Rightarrow> 's middleware list \<Rightarrow> 's middleware \<Rightarrow> 's middleware option" where
  "nth_node 0 N m = Some m"
| "nth_node (Suc j) N m =
     (case next m of
        None \<Rightarrow> None
      | Some p \<Rightarrow> if p < length N then nth_node j N (N ! p) else None)"

text \<open>The stack's chain field reads the same as the chain built anew from its
  current handlers, which is the right-nested chain of these handlers.\<close>

definition synced :: "'s heap \<Rightarrow> 's Negroni \<Rightarrow> bool" where
  "synced H n =
     (let hs = elems (arrays H) (handlers n) in
        chain_of (length hs + 2) (nodes H) (middleware n)
          = chain_of (length hs + 2) (snd (build (nodes H) hs)) (fst (build (nodes H) hs))
        \<and> chain_of (length hs + 2) (nodes H) (middleware n) = Some (foldr Node hs terminal))"

subsection \<open>Auxiliary notions for the proofs\<close>

text \<open>\<open>linked lo N m hs\<close>: from \<open>m\<close>, the cells of \<open>N\<close> at addresses from \<open>lo\<close> on
  spell the handlers \<open>hs\<close>, then a no-op node, then the zero node.\<close>

primrec linked :: "nat \<Rightarrow> 's middleware list \<Rightarrow> 's middleware \<Rightarrow> 's Handler list \<Rightarrow> bool" where
  "linked lo N m [] =
     (handler m = Some (FuncVal (Some Return)) \<and>
      (case next m of None \<Rightarrow> False
       | Some p \<Rightarrow> lo \<le> p \<and> p < length N \<and> N ! p = zero_middleware))"
| "linked lo N m (h # hs) =
     (handler m = h \<and>
      (case next m of None \<Rightarrow> False
       | Some p \<Rightarrow> lo \<le> p \<and> p < length N \<and> linked (Suc p) N (N ! p) hs))"

text \<open>The invariant of a stack: its chain field heads a chain in the heap that spells
  its handlers.\<close>

definition stack_ok :: "'s heap \<Rightarrow> 's Negroni \<Rightarrow> bool" where
  "stack_ok H n = linked 0 (nodes H) (middleware n) (elems (arrays H) (handlers n))"

text \<open>
  Calling the handlers of a sequence in the sequence's order, with no chain and no
  heap: the first handler is called with, as its continuation, the call of the rest
  of the sequence, and after the last one comes the terminal no-op. \<open>i\<close> is the
  position of the first handler.
\<close>

primrec run :: "'s Handler list \<Rightarrow> nat \<Rightarrow> 's world \<Rightarrow> 's world result" where
  "run [] i w = Returned (log (Invoke i) w)"
| "run (h # hs) i w =
     (case h of
        None \<Rightarrow> Panicked nil_deref w
      | Some d \<Rightarrow>
          Handler_ServeHTTP d (\<lambda>w'. run hs (Suc i) (log (Continue i) w')) (log (Invoke i) w))"

text \<open>The ghost trace a result carries; a run out of fuel carries none.\<close>

definition result_trace :: "'s world result \<Rightarrow> event list option" where
  "result_trace r =
     (case r of Returned w \<Rightarrow> Some (trace w) | Panicked msg w \<Rightarrow> Some (trace w) | OutOfFuel \<Rightarrow> None)"

text \<open>\<open>nexts b n\<close>: on every path through the body \<open>b\<close>, \<^verbatim>\<open>next\<close> is called exactly
  \<open>n\<close> times (under \<open>Recover\<close>: by the protected part, and not again after a
  recovery). A handler calls its continuation exactly once when it is a non-nil
  value whose code does so on every path.\<close>

primrec nexts :: "'s body \<Rightarrow> nat \<Rightarrow> bool" where
  "nexts Return n = (n = 0)"
| "nexts (Panic msg) n = (n = 0)"
| "nexts (Next b) n = (case n of 0 \<Rightarrow> False | Suc k \<Rightarrow> nexts b k)"
| "nexts (Act f b) n = nexts b n"
| "nexts (Look f) n = (\<forall>s. nexts (f s) n)"
| "nexts (Recover b h) n = (nexts b n \<and> nexts h 0)"

fun calls_once :: "'s Handler \<Rightarrow> bool" where
  "calls_once None = False"
| "calls_once (Some (FuncVal None)) = False"
| "calls_once (Some (FuncVal (Some b))) = nexts b 1"
| "calls_once (Some (Impl isnil b)) = nexts b 1"

text \<open>The events of a pass through \<open>n\<close> handlers from depth \<open>i\<close>, each invoked once and
  continuing once, down to the terminal node.\<close>

definition expected :: "nat \<Rightarrow> nat \<Rightarrow> event list" where
  "expected i n = concat (map (\<lambda>j. [Invoke j, Continue j]) [i ..< i + n]) @ [Invoke (i + n)]"

text \<open>\<open>adds w r es\<close>: the result \<open>r\<close> of a run started in \<open>w\<close> carries the trace of
  \<open>w\<close> followed by the events \<open>es\<close>.\<close>

definition adds :: "'s world \<Rightarrow> 's world result \<Rightarrow> event list \<Rightarrow> bool" where
  "adds w r es = (result_trace r = Some (trace w @ es))"

text \<open>The depth an event happened at.\<close>

primrec depth :: "event \<Rightarrow> nat" where
  "depth (Invoke j) = j"
| "depth (Continue j) = j"

text \<open>\<open>passes i n\<close>: the events of \<open>n\<close> handlers from depth \<open>i\<close> on, each invoked once
  and continuing once.\<close>

definition passes :: "nat \<Rightarrow> nat \<Rightarrow> event list" where
  "passes i n = concat (map (\<lambda>j. [Invoke j, Continue j]) [i ..< i + n])"

text \<open>
  The order every run keeps, whatever the handlers do. \<open>chained i es\<close>: a node
  below depth \<open>i\<close> is invoked only if the handler above it continued, and a handler
  continues only if it was invoked. \<open>inner i n es\<close> describes the events of the calls
  a handler at depth \<open>i\<close> makes to its continuation, \<open>shape i n es\<close> those of the
  invocation of a node at depth \<open>i\<close> with \<open>n\<close> handlers behind it.
\<close>

definition chained :: "nat \<Rightarrow> event list \<Rightarrow> bool" where
  "chained i es =
     ((\<forall>j. i \<le> j \<longrightarrow> Invoke (Suc j) \<in> set es \<longrightarrow> Continue j \<in> set es)
      \<and> (\<forall>j. Continue j \<in> set es \<longrightarrow> Invoke j \<in> set es))"

definition inner :: "nat \<Rightarrow> nat \<Rightarrow> event list \<Rightarrow> bool" where
  "inner i n es =
     ((es = [] \<or> Continue i \<in> set es)
      \<and> (\<forall>j. Suc i \<le> j \<longrightarrow> Invoke (Suc j) \<in> set es \<longrightarrow> Continue j \<in> set es)
      \<and> (\<forall>j. Continue j \<in> set es \<longrightarrow> j = i \<or> Invoke j \<in> set es)
      \<and> (\<forall>e \<in> set es. e \<noteq> Invoke i \<and> i \<le> depth e \<and> depth e \<le> Suc i + n \<and> e \<noteq> Continue (Suc i + n)))"

definition shape :: "nat \<Rightarrow> nat \<Rightarrow> event list \<Rightarrow> bool" where
  "shape i n es =
     (chained i es
      \<and> (\<forall>e \<in> set es. i \<le> depth e \<and> depth e \<le> i + n \<and> e \<noteq> Continue (i + n))
      \<and> (es = [] \<or> (\<exists>esK. es = Invoke i # esK \<and> Invoke i \<notin> set esK
                          \<and> (esK = [] \<or> Continue i \<in> set esK))))"

text \<open>A handler that cannot panic by itself: a non-nil value whose code has no
  \<open>Panic\<close> on any path.\<close>

primrec no_panic :: "'s body \<Rightarrow> bool" where
  "no_panic Return = True"
| "no_panic (Panic msg) = False"
| "no_panic (Next b) = no_panic b"
| "no_panic (Act f b) = no_panic b"
| "no_panic (Look f) = (\<forall>s. no_panic (f s))"
| "no_panic (Recover b h) = (no_panic b \<and> no_panic h)"

fun panic_free :: "'s Handler \<Rightarrow> bool" where
  "panic_free None = False"
| "panic_free (Some (FuncVal None)) = False"
| "panic_free (Some (FuncVal (Some b))) = no_panic b"
| "panic_free (Some (Impl isnil b)) = no_panic b"

text \<open>
  Finer descriptions of the events of a run, for the statements about how often a
  handler is invoked. \<open>blocks B es\<close>: \<open>es\<close> is a sequence of parts that each
  satisfy \<open>B\<close>. \<open>call_block hs i e\<close>: \<open>e\<close> is what one call of the continuation of
  the handler at depth \<open>i\<close> adds when the handlers \<open>hs\<close> lie behind it.
  \<open>counted i es\<close>: the node at depth \<open>i\<close> is invoked at most once, and a node
  below is invoked at most as often as the handler above it continued.
\<close>

definition blocks :: "(event list \<Rightarrow> bool) \<Rightarrow> event list \<Rightarrow> bool" where
  "blocks B es = (\<exists>bs. es = concat bs \<and> (\<forall>e \<in> set bs. B e))"

definition call_block :: "'s Handler list \<Rightarrow> nat \<Rightarrow> event list \<Rightarrow> bool" where
  "call_block hs i e =
     (\<exists>v es. e = Continue i # es \<and> adds v (run hs (Suc i) v) es \<and> shape (Suc i) (length hs) es)"

definition counted :: "nat \<Rightarrow> event list \<Rightarrow> bool" where
  "counted i es =
     (count_list es (Invoke i) \<le> 1
      \<and> (\<forall>j. i \<le> j \<longrightarrow> count_list es (Invoke (Suc j)) \<le> count_list es (Continue j)))"

subsection \<open>Example handlers\<close>

text \<open>The handlers of the end-to-end scenarios: one appends a string to the response
  body and calls \<^verbatim>\<open>next\<close>, the other appends and returns.\<close>

definition write_then_next :: "string \<Rightarrow> string Handler" where
  "write_then_next c = Some (FuncVal (Some (Act (\<lambda>s. s @ c) (Next Return))))"

definition write_only :: "string \<Rightarrow> string Handler" where
  "write_only c = Some (FuncVal (Some (Act (\<lambda>s. s @ c) Return)))"

text \<open>
  An example run: a caller's \<^verbatim>\<open>New(A)\<close> with \<open>A\<close> writing \<open>1\<close> and continuing
  (the variadic call has put \<open>A\<close> in a one-element array), then
  \<^verbatim>\<open>Use(B)\<close> with \<open>B\<close> writing \<open>2\<close>, under a runtime that doubles capacities.
\<close>

definition double :: "nat \<Rightarrow> nat" where
  "double c = 2 * c"

definition example_H0 :: "string heap" where
  "example_H0 = \<lparr>nodes = [], arrays = [[write_then_next ''1'']]\<rparr>"

definition example_s0 :: slice where
  "example_s0 = \<lparr>arr = 0, off = 0, len = 1, cap = 1\<rparr>"

definition example_n1 :: "string Negroni" where
  "example_n1 = \<lparr>middleware = \<lparr>handler = write_then_next ''1'', next = Some 0\<rparr>, handlers = example_s0\<rparr>"

definition example_H1 :: "string heap" where
  "example_H1 =
     \<lparr>nodes = [\<lparr>handler = Some (FuncVal (Some Return)), next = Some 1\<rparr>, zero_middleware],
      arrays = [[write_then_next ''1'']]\<rparr>"

definition example_n2 :: "string Negroni" where
  "example_n2 =
     \<lparr>middleware = \<lparr>handler = write_then_next ''1'', next = Some 2\<rparr>,
      handlers = \<lparr>arr = 1, off = 0, len = 2, cap = 2\<rparr>\<rparr>"

definition example_H2 :: "string heap" where
  "example_H2 =
     \<lparr>nodes = [\<lparr>handler = Some (FuncVal (Some Return)), next = Some 1\<rparr>, zero_middleware,
               \<lparr>handler = write_only ''2'', next = Some 3\<rparr>,
               \<lparr>handler = Some (FuncVal (Some Return)), next = Some 4\<rparr>, zero_middleware],
      arrays = [[write_then_next ''1''], [write_then_next ''1'', write_only ''2'']]\<rparr>"

text \<open>A handler that calls \<^verbatim>\<open>next\<close> twice.\<close>

definition next_twice :: "string Handler" where
  "next_twice = Some (FuncVal (Some (Next (Next Return))))"

text \<open>A non-nil interface value that wraps a nil pointer, whose method panics when it
  reads its receiver; and the example stack after \<^verbatim>\<open>Use\<close> of it.\<close>

definition nil_ptr_handler :: "string Handler" where
  "nil_ptr_handler = Some (Impl True (Panic ''nil receiver''))"

definition example_n3 :: "string Negroni" where
  "example_n3 =
     \<lparr>middleware = \<lparr>handler = write_then_next ''1'', next = Some 2\<rparr>,
      handlers = \<lparr>arr = 1, off = 0, len = 2, cap = 2\<rparr>\<rparr>"

definition example_H3 :: "string heap" where
  "example_H3 =
     \<lparr>nodes = [\<lparr>handler = Some (FuncVal (Some Return)), next = Some 1\<rparr>, zero_middleware,
               \<lparr>handler = nil_ptr_handler, next = Some 3\<rparr>,
               \<lparr>handler = Some (FuncVal (Some Return)), next = Some 4\<rparr>, zero_middleware],
      arrays = [[write_then_next ''1''], [write_then_next ''1'', nil_ptr_handler]]\<rparr>"

text \<open>
  A handler that changes the state, calls \<^verbatim>\<open>next\<close>, and changes the state again after
  \<^verbatim>\<open>next\<close> has returned; and a handler that continues only as long as nothing has
  been written, with a sequence that starts with it.
\<close>

definition around :: "('s \<Rightarrow> 's) \<Rightarrow> ('s \<Rightarrow> 's) \<Rightarrow> 's Handler" where
  "around pre post = Some (FuncVal (Some (Act pre (Next (Act post Return)))))"

definition gate :: "string Handler" where
  "gate = Some (FuncVal (Some (Look (\<lambda>s. if s = [] then Next Return else Return))))"

definition gated :: "string Handler list" where
  "gated = [gate, write_then_next ''2'', write_only ''3'']"


section \<open>Lemmas\<close>

lemma linked_frame:
  "linked lo N m hs \<Longrightarrow> length N \<le> length N' \<Longrightarrow>
   (\<And>a. lo \<le> a \<Longrightarrow> a < length N \<Longrightarrow> N' ! a = N ! a) \<Longrightarrow> linked lo N' m hs"
proof (induction hs arbitrary: lo m)
  case Nil
  then show ?case by (auto split: option.splits)
next
  case (Cons h hs)
  from Cons.prems(1) obtain p where p: "next m = Some p" "lo \<le> p" "p < length N"
    "linked (Suc p) N (N ! p) hs" and h: "handler m = h"
    by (auto split: option.splits)
  have "linked (Suc p) N' (N ! p) hs"
    using p Cons.prems by (intro Cons.IH) auto
  moreover have "N' ! p = N ! p" using p Cons.prems by auto
  ultimately show ?case using p h Cons.prems by auto
qed

lemma linked_mono: "linked lo N m hs \<Longrightarrow> lo' \<le> lo \<Longrightarrow> linked lo' N m hs"
  by (cases hs) (auto split: option.splits)

lemma voidMiddleware_linked:
  "voidMiddleware N = (m, N') \<Longrightarrow> linked (length N) N' m [] \<and> length N' = Suc (length N) \<and> take (length N) N' = N"
  by (auto simp: voidMiddleware_def)

lemma build_linked:
  "build N hs = (m, N') \<Longrightarrow> linked (length N) N' m hs \<and> length N < length N' \<and> take (length N) N' = N"
proof (induction hs arbitrary: N m N')
  case Nil
  then show ?case
    by (auto simp: voidMiddleware_def nth_append)
next
  case (Cons h hs)
  let ?p = "length N" and ?N0 = "N @ [zero_middleware]"
  obtain nx N1 where sub: "(if length (h # hs) > 1 then build ?N0 hs else voidMiddleware ?N0) = (nx, N1)"
    by (cases "(if length (h # hs) > 1 then build ?N0 hs else voidMiddleware ?N0)") auto
  have r: "m = \<lparr>handler = h, next = Some ?p\<rparr>" "N' = N1[?p := nx]"
    using Cons.prems sub by (auto simp: Let_def)
  have sp: "linked (length ?N0) N1 nx hs \<and> length ?N0 < length N1 \<and> take (length ?N0) N1 = ?N0"
  proof (cases hs)
    case Nil
    then show ?thesis using sub voidMiddleware_linked[of ?N0 nx N1] by auto
  next
    case (Cons a list)
    then show ?thesis using sub Cons.IH[of ?N0 nx N1] by auto
  qed
  have lenp: "?p < length N1" using sp by simp
  have l1: "linked (Suc ?p) N' nx hs"
    unfolding r
  proof (rule linked_frame[where N = N1])
    show "linked (Suc ?p) N1 nx hs" using sp by simp
    show "length N1 \<le> length (N1[?p := nx])" by simp
    show "\<And>a. Suc ?p \<le> a \<Longrightarrow> a < length N1 \<Longrightarrow> N1[?p := nx] ! a = N1 ! a" by simp
  qed
  have t0: "take ?p (take (Suc ?p) N1) = take ?p (N @ [zero_middleware])"
    using sp by simp
  have t1: "take ?p N1 = N"
    using t0 by (simp add: min_def)
  have nth: "N' ! ?p = nx" unfolding r using lenp by simp
  have len: "length N' = length N1" unfolding r by simp
  have t2: "take ?p N' = N" unfolding r using t1 by simp
  have "linked ?p N' m (h # hs)"
    using l1 nth len lenp by (simp add: r(1))
  then show ?case using len lenp t2 by simp
qed


lemma linked_chain_of:
  "linked lo N m hs \<Longrightarrow> chain_of (length hs + 2 + k) N m = Some (foldr Node hs terminal)"
proof (induction hs arbitrary: lo m)
  case Nil
  then show ?case
    by (auto simp: terminal_def zero_middleware_def split: option.splits)
next
  case (Cons h hs)
  from Cons.prems obtain p where p: "next m = Some p" "p < length N"
    "linked (Suc p) N (N ! p) hs" and h: "handler m = h"
    by (auto split: option.splits)
  show ?case using Cons.IH[OF p(3)] p(1,2) h by simp
qed

lemma linked_run:
  "linked lo N m hs \<Longrightarrow> middleware_ServeHTTP (Suc (length hs + k)) N i m w = run hs i w"
proof (induction hs arbitrary: lo m i w)
  case Nil
  then show ?case
    by (auto simp: HandlerFunc_ServeHTTP_def split: option.splits)
next
  case (Cons h hs)
  from Cons.prems obtain p where p: "next m = Some p" "p < length N"
    "linked (Suc p) N (N ! p) hs" and h: "handler m = h"
    by (auto split: option.splits)
  show ?case using Cons.IH[OF p(3)] p(1,2) h by (simp split: option.splits)
qed

lemma linked_ServeHTTP_frame:
  "linked lo N m hs \<Longrightarrow> length N \<le> length N' \<Longrightarrow> (\<And>a. a < length N \<Longrightarrow> N' ! a = N ! a) \<Longrightarrow>
   middleware_ServeHTTP fuel N' i m w = middleware_ServeHTTP fuel N i m w"
proof (induction hs arbitrary: lo m fuel i w)
  case Nil
  then show ?case
    by (cases fuel) (auto simp: HandlerFunc_ServeHTTP_def split: option.splits)
next
  case (Cons h hs)
  from Cons.prems(1) obtain p where p: "next m = Some p" "p < length N"
    "linked (Suc p) N (N ! p) hs" and h: "handler m = h"
    by (auto split: option.splits)
  have eq: "N' ! p = N ! p" using Cons.prems(3) p(2) by simp
  have ih: "\<And>f j v. middleware_ServeHTTP f N' j (N ! p) v = middleware_ServeHTTP f N j (N ! p) v"
    using Cons.IH[OF p(3) Cons.prems(2)] Cons.prems(3) by blast
  show ?case
  proof (cases fuel)
    case 0
    then show ?thesis by simp
  next
    case (Suc f)
    then show ?thesis using p(1,2) h eq ih Cons.prems(2) by (simp split: option.splits)
  qed
qed


lemma result_trace_simps [simp]:
  "result_trace (Returned w) = Some (trace w)"
  "result_trace (Panicked msg w) = Some (trace w)"
  "result_trace OutOfFuel = None"
  by (simp_all add: result_trace_def)

lemma trace_log [simp]: "trace (log e w) = trace w @ [e]" "resp (log e w) = resp w"
  by (simp_all add: log_def)

lemma exec_nexts0: "nexts b 0 \<Longrightarrow> result_trace (exec b K w) = Some (trace w)"
proof (induction b arbitrary: w)
  case (Recover b h)
  then have n: "nexts b 0" "nexts h 0" by simp_all
  show ?case
    using Recover.IH(1)[OF n(1), of w] Recover.IH(2)[OF n(2)]
    by (cases "exec b K w") auto
qed auto

lemma exec_nexts1:
  assumes K: "\<And>v. result_trace (K v) = Some (trace v @ T)"
  shows "nexts b (Suc 0) \<Longrightarrow> result_trace (exec b K w) = Some (trace w @ T)"
proof (induction b arbitrary: w)
  case (Next b)
  then have b0: "nexts b 0" by simp
  show ?case
  proof (cases "K w")
    case (Returned w')
    then show ?thesis using K[of w] exec_nexts0[OF b0, of K w'] by simp
  next
    case (Panicked msg w')
    then show ?thesis using K[of w] by simp
  next
    case OutOfFuel
    then show ?thesis using K[of w] by simp
  qed
next
  case (Recover b h)
  then have n: "nexts b (Suc 0)" "nexts h 0" by simp_all
  show ?case
    using Recover.IH(1)[OF n(1), of w] exec_nexts0[OF n(2), of K]
    by (cases "exec b K w") auto
qed auto

lemma expected_Suc: "expected i (Suc n) = Invoke i # Continue i # expected (Suc i) n"
proof -
  have "[i ..< i + Suc n] = i # [Suc i ..< Suc i + n]"
    by (simp add: upt_conv_Cons)
  then show ?thesis by (simp add: expected_def)
qed

lemma Handler_ServeHTTP_once:
  assumes K: "\<And>v. result_trace (K v) = Some (trace v @ T)" and c: "calls_once (Some d)"
  shows "result_trace (Handler_ServeHTTP d K w) = Some (trace w @ T)"
proof (cases d)
  case (FuncVal h)
  then show ?thesis using c exec_nexts1[OF K]
    by (cases h) (auto simp: HandlerFunc_ServeHTTP_def)
next
  case (Impl isnil b)
  then show ?thesis using c exec_nexts1[OF K] by auto
qed

lemma run_trace_once:
  "(\<forall>h \<in> set hs. calls_once h) \<Longrightarrow> result_trace (run hs i w) = Some (trace w @ expected i (length hs))"
proof (induction hs arbitrary: i w)
  case Nil
  then show ?case by (simp add: expected_def)
next
  case (Cons h hs)
  then obtain d where d: "h = Some d" by (cases h) auto
  have K: "\<And>v. result_trace (run hs (Suc i) (log (Continue i) v)) = Some (trace v @ (Continue i # expected (Suc i) (length hs)))"
    using Cons by simp
  have "calls_once (Some d)" using Cons.prems d by simp
  from Handler_ServeHTTP_once[OF K this, of "log (Invoke i) w"]
  show ?case using d by (simp add: expected_Suc)
qed

lemma take_drop_update_snoc:
  "k + n < length xs \<Longrightarrow> take (Suc n) (drop k (xs[k + n := v])) = take n (drop k xs) @ [v]"
  by (simp add: take_Suc_conv_app_nth drop_update_swap)

lemma append1_elems:
  assumes "wf_slice A s" and "append1 grow z A s v = (s', A')"
  shows "wf_slice A' s' \<and> elems A' s' = elems A s @ [v]"
proof (cases "len s < cap s")
  case True
  then have r: "s' = s\<lparr>len := len s + 1\<rparr>" "A' = A[arr s := (A ! arr s)[off s + len s := v]]"
    using assms(2) by (auto simp: append1_def)
  have b: "arr s < length A" "off s + cap s \<le> length (A ! arr s)"
    using assms(1) True by (auto simp: wf_slice_def)
  have "off s + len s < length (A ! arr s)" using b True by simp
  from take_drop_update_snoc[OF this, of v]
  have "elems A' s' = elems A s @ [v]" using b by (simp add: r elems_def)
  moreover have "wf_slice A' s'" using b True by (simp add: r wf_slice_def)
  ultimately show ?thesis by simp
next
  case False
  define c where "c = max (len s + 1) (grow (cap s))"
  have r: "s' = \<lparr>arr = length A, off = 0, len = len s + 1, cap = c\<rparr>"
    "A' = A @ [elems A s @ [v] @ replicate (c - (len s + 1)) z]"
    using assms(2) False by (auto simp: append1_def Let_def c_def)
  have l: "length (elems A s) = len s"
    using assms(1) by (cases "cap s = 0") (auto simp: wf_slice_def elems_def)
  have c: "len s + 1 \<le> c" by (simp add: c_def)
  have "elems A' s' = elems A s @ [v]" using l by (simp add: r elems_def)
  moreover have "wf_slice A' s'" using l c by (simp add: r wf_slice_def)
  ultimately show ?thesis by simp
qed

lemma New_linked:
  assumes "New H s = (n, H')"
  shows "linked (length (nodes H)) (nodes H') (middleware n) (elems (arrays H') (handlers n))
         \<and> arrays H' = arrays H \<and> handlers n = s
         \<and> length (nodes H) < length (nodes H') \<and> take (length (nodes H)) (nodes H') = nodes H"
proof -
  obtain m N' where b: "build (nodes H) (elems (arrays H) s) = (m, N')"
    by (cases "build (nodes H) (elems (arrays H) s)") auto
  then have r: "n = \<lparr>middleware = m, handlers = s\<rparr>" "H' = H\<lparr>nodes := N'\<rparr>"
    using assms by (auto simp: New_def)
  show ?thesis using build_linked[OF b] by (simp add: r)
qed

lemma Use_Returned:
  assumes "Use grow H n h = Returned (n', H')"
  shows "linked (length (nodes H)) (nodes H') (middleware n') (elems (arrays H') (handlers n'))
         \<and> length (nodes H) < length (nodes H') \<and> take (length (nodes H)) (nodes H') = nodes H
         \<and> h \<noteq> None \<and> (handlers n', arrays H') = append1 grow None (arrays H) (handlers n) h"
proof -
  from assms obtain d where d: "h = Some d" by (cases h) (auto simp: Use_def)
  obtain s' A' where a: "append1 grow None (arrays H) (handlers n) h = (s', A')"
    by (cases "append1 grow None (arrays H) (handlers n) h") auto
  obtain m N' where b: "build (nodes H) (elems A' s') = (m, N')"
    by (cases "build (nodes H) (elems A' s')") auto
  have r: "n' = n\<lparr>handlers := s', middleware := m\<rparr>" "H' = \<lparr>nodes = N', arrays = A'\<rparr>"
    using assms a b d by (auto simp: Use_def)
  show ?thesis using build_linked[OF b] a d by (simp add: r)
qed

lemma Use_Panicked: "Use grow H n h = Panicked msg st \<Longrightarrow> st = (n, H)"
  by (cases h) (auto simp: Use_def split: prod.splits)

lemma Use_not_OutOfFuel: "Use grow H n h \<noteq> OutOfFuel"
  by (cases h) (auto simp: Use_def split: prod.splits)

lemma Use_wf:
  assumes "Use grow H n h = Returned (n', H')" and "wf_slice (arrays H) (handlers n)"
  shows "wf_slice (arrays H') (handlers n')
         \<and> elems (arrays H') (handlers n') = elems (arrays H) (handlers n) @ [h]"
proof -
  have "append1 grow None (arrays H) (handlers n) h = (handlers n', arrays H')"
    using Use_Returned[OF assms(1)] by simp
  from append1_elems[OF assms(2) this] show ?thesis .
qed

lemma uses_stack_ok:
  "stack_ok (snd st) (fst st) \<Longrightarrow> stack_ok (snd (uses grow st gs)) (fst (uses grow st gs))"
proof (induction gs arbitrary: st)
  case Nil
  then show ?case by simp
next
  case (Cons h gs)
  show ?case
  proof (cases "Use grow (snd st) (fst st) h")
    case (Returned st')
    then have "Use grow (snd st) (fst st) h = Returned (fst st', snd st')" by simp
    from Use_Returned[OF this] have "stack_ok (snd st') (fst st')"
      by (auto simp: stack_ok_def intro: linked_mono)
    from Cons.IH[OF this] show ?thesis using Returned by simp
  next
    case (Panicked msg st')
    then have "st' = st" using Use_Panicked[of grow "snd st" "fst st" h msg st'] by simp
    then show ?thesis using Panicked Cons by simp
  next
    case OutOfFuel
    then show ?thesis using Use_not_OutOfFuel by blast
  qed
qed

lemma New_stack_ok: "New H s = (n, H') \<Longrightarrow> stack_ok H' n"
  using New_linked[of H s n H'] by (auto simp: stack_ok_def intro: linked_mono)

lemma linked_synced:
  assumes "linked lo (nodes H) (middleware n) (elems (arrays H) (handlers n))"
  shows "synced H n"
proof -
  let ?hs = "elems (arrays H) (handlers n)"
  have a: "chain_of (length ?hs + 2 + 0) (nodes H) (middleware n) = Some (foldr Node ?hs terminal)"
    using assms by (rule linked_chain_of)
  have "build (nodes H) ?hs = (fst (build (nodes H) ?hs), snd (build (nodes H) ?hs))" by simp
  from build_linked[OF this]
  have "linked (length (nodes H)) (snd (build (nodes H) ?hs)) (fst (build (nodes H) ?hs)) ?hs"
    by simp
  then have b: "chain_of (length ?hs + 2 + 0) (snd (build (nodes H) ?hs)) (fst (build (nodes H) ?hs))
      = Some (foldr Node ?hs terminal)"
    by (rule linked_chain_of)
  show ?thesis using a b by (simp add: synced_def Let_def)
qed

lemma example_New: "New example_H0 example_s0 = (example_n1, example_H1)"
  by (simp add: New_def example_H0_def example_s0_def example_n1_def example_H1_def elems_def
      voidMiddleware_def)

lemma example_Use: "Use double example_H1 example_n1 (write_only ''2'') = Returned (example_n2, example_H2)"
  by (simp add: Use_def append1_def double_def example_s0_def example_n1_def example_H1_def
      example_n2_def example_H2_def elems_def voidMiddleware_def write_only_def)

lemma elems_store:
  assumes "wf_slice A s" and "i < len s"
  shows "elems (A[arr s := (A ! arr s)[off s + i := v]]) s = (elems A s)[i := v]"
proof -
  have "arr s < length A" using assms by (auto simp: wf_slice_def)
  then show ?thesis by (simp add: elems_def drop_update_swap take_update_swap)
qed

lemma uses_history:
  "wf_slice (arrays (snd st)) (handlers (fst st)) \<Longrightarrow>
   wf_slice (arrays (snd (uses grow st gs))) (handlers (fst (uses grow st gs)))
   \<and> elems (arrays (snd (uses grow st gs))) (handlers (fst (uses grow st gs)))
       = elems (arrays (snd st)) (handlers (fst st)) @ filter (\<lambda>h. h \<noteq> None) gs"
proof (induction gs arbitrary: st)
  case Nil
  then show ?case by simp
next
  case (Cons h gs)
  show ?case
  proof (cases "Use grow (snd st) (fst st) h")
    case (Returned st')
    then have u: "Use grow (snd st) (fst st) h = Returned (fst st', snd st')" by simp
    have nn: "h \<noteq> None" using Use_Returned[OF u] by simp
    note w = Use_wf[OF u Cons.prems]
    from Cons.IH[of st'] w show ?thesis using Returned nn by simp
  next
    case (Panicked msg st')
    then have e: "st' = st" using Use_Panicked[of grow "snd st" "fst st" h msg st'] by simp
    have "h = None" using Panicked by (cases h) (auto simp: Use_def split: prod.splits)
    then show ?thesis using Panicked e Cons.IH[OF Cons.prems] by simp
  next
    case OutOfFuel
    then show ?thesis using Use_not_OutOfFuel by blast
  qed
qed

lemma exec_adds:
  assumes K: "\<And>v. \<exists>es. adds v (K v) es \<and> P es" and P0: "P []"
    and PA: "\<And>a b. P a \<Longrightarrow> P b \<Longrightarrow> P (a @ b)"
  shows "\<exists>es. adds w (exec b K w) es \<and> P es"
proof (induction b arbitrary: w)
  case Return
  then show ?case using P0 by (auto simp: adds_def)
next
  case (Panic msg)
  then show ?case using P0 by (auto simp: adds_def)
next
  case (Next b)
  from K[of w] obtain es1 where k: "adds w (K w) es1" "P es1" by blast
  show ?case
  proof (cases "K w")
    case (Returned w')
    from Next.IH[of w'] obtain es2 where e: "adds w' (exec b K w') es2" "P es2" by blast
    have "adds w (exec (Next b) K w) (es1 @ es2)"
      using k(1) e(1) Returned by (simp add: adds_def)
    then show ?thesis using PA[OF k(2) e(2)] by blast
  next
    case (Panicked msg w')
    then show ?thesis using k by (auto simp: adds_def)
  next
    case OutOfFuel
    then show ?thesis using k by (simp add: adds_def)
  qed
next
  case (Act f b)
  from Act.IH[of "w\<lparr>resp := f (resp w)\<rparr>"] show ?case by (simp add: adds_def)
next
  case (Look f)
  then show ?case by simp
next
  case (Recover b h)
  from Recover.IH(1)[of w] obtain es1 where e1: "adds w (exec b K w) es1" "P es1" by blast
  show ?case
  proof (cases "exec b K w")
    case (Returned w')
    then show ?thesis using e1 by auto
  next
    case (Panicked msg w')
    from Recover.IH(2)[of w'] obtain es2 where e2: "adds w' (exec h K w') es2" "P es2" by blast
    have "adds w (exec (Recover b h) K w) (es1 @ es2)"
      using e1(1) e2(1) Panicked by (simp add: adds_def)
    then show ?thesis using PA[OF e1(2) e2(2)] by blast
  next
    case OutOfFuel
    then show ?thesis using e1 by (simp add: adds_def)
  qed
qed

lemma Handler_adds:
  assumes K: "\<And>v. \<exists>es. adds v (K v) es \<and> P es" and P0: "P []"
    and PA: "\<And>a b. P a \<Longrightarrow> P b \<Longrightarrow> P (a @ b)"
  shows "\<exists>es. adds w (Handler_ServeHTTP d K w) es \<and> P es"
proof (cases d)
  case (FuncVal h)
  show ?thesis
  proof (cases h)
    case None
    then show ?thesis using FuncVal P0 by (auto simp: HandlerFunc_ServeHTTP_def adds_def)
  next
    case (Some b)
    then show ?thesis using FuncVal exec_adds[of K P w b, OF K P0 PA]
      by (simp add: HandlerFunc_ServeHTTP_def)
  qed
next
  case (Impl isnil b)
  then show ?thesis using exec_adds[of K P w b, OF K P0 PA] by simp
qed

lemma exec_once_call:
  "nexts b (Suc 0) \<Longrightarrow> \<exists>v. trace v = trace w \<and> result_trace (exec b K w) = result_trace (K v)"
proof (induction b arbitrary: w)
  case (Next b)
  then have b0: "nexts b 0" by simp
  have "result_trace (exec (Next b) K w) = result_trace (K w)"
    using exec_nexts0[OF b0, of K] by (cases "K w") auto
  then show ?case by blast
next
  case (Act f b)
  from Act.IH[of "w\<lparr>resp := f (resp w)\<rparr>"] Act.prems show ?case by auto
next
  case (Look f)
  then show ?case by auto
next
  case (Recover b h)
  then have n: "nexts b (Suc 0)" "nexts h 0" by simp_all
  from Recover.IH(1)[OF n(1), of w] obtain v where v: "trace v = trace w"
    "result_trace (exec b K w) = result_trace (K v)" by blast
  have "result_trace (exec (Recover b h) K w) = result_trace (exec b K w)"
    using exec_nexts0[OF n(2), of K] by (cases "exec b K w") auto
  then show ?case using v by auto
qed auto

lemma Handler_once_call:
  assumes "calls_once (Some d)"
  shows "\<exists>v. trace v = trace w \<and> result_trace (Handler_ServeHTTP d K w) = result_trace (K v)"
proof (cases d)
  case (FuncVal h)
  then show ?thesis using assms exec_once_call[of _ w K]
    by (cases h) (auto simp: HandlerFunc_ServeHTTP_def)
next
  case (Impl isnil b)
  then show ?thesis using assms exec_once_call[of b w K] by auto
qed

lemma passes_0 [simp]: "passes i 0 = []"
  by (simp add: passes_def)

lemma passes_Suc: "passes i (Suc n) = Invoke i # Continue i # passes (Suc i) n"
proof -
  have "[i ..< i + Suc n] = i # [Suc i ..< Suc i + n]"
    by (simp add: upt_conv_Cons)
  then show ?thesis by (simp add: passes_def)
qed

lemma run_prefix_once:
  "(\<forall>h \<in> set xs. calls_once h) \<Longrightarrow>
   \<exists>v. trace v = trace w @ passes i (length xs)
       \<and> result_trace (run (xs @ ys) i w) = result_trace (run ys (i + length xs) v)"
proof (induction xs arbitrary: i w)
  case Nil
  show ?case by (rule exI[of _ w]) simp
next
  case (Cons h xs)
  then obtain d where d: "h = Some d" by (cases h) auto
  have c: "calls_once (Some d)" using Cons.prems d by simp
  from Handler_once_call[OF c, of "log (Invoke i) w" "\<lambda>w'. run (xs @ ys) (Suc i) (log (Continue i) w')"]
  obtain v0 where v0: "trace v0 = trace w @ [Invoke i]"
    "result_trace (run ((h # xs) @ ys) i w) = result_trace (run (xs @ ys) (Suc i) (log (Continue i) v0))"
    using d by auto
  have "\<forall>h \<in> set xs. calls_once h" using Cons.prems by simp
  from Cons.IH[OF this, of "log (Continue i) v0" "Suc i"]
  obtain v where v: "trace v = trace (log (Continue i) v0) @ passes (Suc i) (length xs)"
    "result_trace (run (xs @ ys) (Suc i) (log (Continue i) v0)) = result_trace (run ys (Suc i + length xs) v)"
    by blast
  have "trace v = trace w @ passes i (length (h # xs))"
    using v(1) v0(1) by (simp add: passes_Suc)
  then show ?case using v(2) v0(2) by auto
qed

lemma linked_nth_node:
  "linked lo N m (xs @ ys) \<Longrightarrow> \<exists>t lo'. nth_node (length xs) N m = Some t \<and> linked lo' N t ys"
proof (induction xs arbitrary: lo m)
  case Nil
  then show ?case by auto
next
  case (Cons h xs)
  from Cons.prems obtain p where p: "next m = Some p" "p < length N"
    "linked (Suc p) N (N ! p) (xs @ ys)"
    by (auto split: option.splits)
  from Cons.IH[OF p(3)] show ?case using p(1,2) by simp
qed

lemma inner_Nil: "inner i n []"
  by (simp add: inner_def)

lemma inner_append: "inner i n a \<Longrightarrow> inner i n b \<Longrightarrow> inner i n (a @ b)"
  unfolding inner_def by (intro conjI) auto

lemma inner_step:
  assumes "shape (Suc i) n es"
  shows "inner i n (Continue i # es)"
proof -
  have c1: "\<And>j. Suc i \<le> j \<Longrightarrow> Invoke (Suc j) \<in> set es \<Longrightarrow> Continue j \<in> set es"
    and c2: "\<And>j. Continue j \<in> set es \<Longrightarrow> Invoke j \<in> set es"
    and b: "\<And>e. e \<in> set es \<Longrightarrow> Suc i \<le> depth e \<and> depth e \<le> Suc i + n \<and> e \<noteq> Continue (Suc i + n)"
    using assms unfolding shape_def chained_def by blast+
  have g2: "\<forall>j. Suc i \<le> j \<longrightarrow> Invoke (Suc j) \<in> set (Continue i # es) \<longrightarrow> Continue j \<in> set (Continue i # es)"
    using c1 by simp
  have g3: "\<forall>j. Continue j \<in> set (Continue i # es) \<longrightarrow> j = i \<or> Invoke j \<in> set (Continue i # es)"
    using c2 by auto
  have g4: "\<forall>e \<in> set (Continue i # es). e \<noteq> Invoke i \<and> i \<le> depth e \<and> depth e \<le> Suc i + n \<and> e \<noteq> Continue (Suc i + n)"
  proof
    fix e assume "e \<in> set (Continue i # es)"
    then consider "e = Continue i" | "e \<in> set es" by auto
    then show "e \<noteq> Invoke i \<and> i \<le> depth e \<and> depth e \<le> Suc i + n \<and> e \<noteq> Continue (Suc i + n)"
    proof cases
      case 1
      then show ?thesis by simp
    next
      case 2
      from b[OF 2] show ?thesis by (cases e) auto
    qed
  qed
  show ?thesis unfolding inner_def using g2 g3 g4 by simp
qed

lemma shape_step:
  assumes "inner i n es"
  shows "shape i (Suc n) (Invoke i # es)"
proof -
  have p1: "es = [] \<or> Continue i \<in> set es"
    and p2: "\<And>j. Suc i \<le> j \<Longrightarrow> Invoke (Suc j) \<in> set es \<Longrightarrow> Continue j \<in> set es"
    and p3: "\<And>j. Continue j \<in> set es \<Longrightarrow> j = i \<or> Invoke j \<in> set es"
    and p4: "\<And>e. e \<in> set es \<Longrightarrow> e \<noteq> Invoke i \<and> i \<le> depth e \<and> depth e \<le> Suc i + n \<and> e \<noteq> Continue (Suc i + n)"
    using assms unfolding inner_def by blast+
  have g1: "chained i (Invoke i # es)"
    unfolding chained_def
  proof (intro conjI allI impI)
    fix j assume j: "i \<le> j" and "Invoke (Suc j) \<in> set (Invoke i # es)"
    then have m: "Invoke (Suc j) \<in> set es" by auto
    show "Continue j \<in> set (Invoke i # es)"
    proof (cases "j = i")
      case True
      then show ?thesis using p1 m by auto
    next
      case False
      then have "Suc i \<le> j" using j by simp
      from p2[OF this m] show ?thesis by simp
    qed
  next
    fix j assume "Continue j \<in> set (Invoke i # es)"
    then have "Continue j \<in> set es" by simp
    from p3[OF this] show "Invoke j \<in> set (Invoke i # es)" by auto
  qed
  have g2: "\<forall>e \<in> set (Invoke i # es). i \<le> depth e \<and> depth e \<le> i + Suc n \<and> e \<noteq> Continue (i + Suc n)"
    using p4 by auto
  have g3: "Invoke i \<notin> set es" using p4 by blast
  show ?thesis unfolding shape_def using g1 g2 g3 p1 by simp
qed

lemma shape_leaf: "shape i n []" "shape i 0 [Invoke i]" "shape i (Suc n) [Invoke i]"
  by (simp_all add: shape_def chained_def)

lemma run_shape_aux:
  "(\<exists>es. adds w (run hs i w) es \<and> shape i (length hs) es)
   \<and> (\<exists>es. adds w (run (Some d # hs) i w) (Invoke i # es) \<and> inner i (length hs) es)"
proof (induction hs arbitrary: i w d)
  case Nil
  have a: "adds w (run [] i w) [Invoke i]" by (simp add: adds_def)
  let ?K = "\<lambda>w'. run [] (Suc i) (log (Continue i) w')"
  have K: "\<And>v. \<exists>es. adds v (?K v) es \<and> inner i 0 es"
  proof -
    fix v
    have "adds v (?K v) (Continue i # [Invoke (Suc i)])" by (simp add: adds_def)
    then show "\<exists>es. adds v (?K v) es \<and> inner i 0 es"
      using inner_step[OF shape_leaf(2), of i] by blast
  qed
  from Handler_adds[of ?K "inner i 0" "log (Invoke i) w" d, OF K inner_Nil inner_append]
  obtain es where es: "adds (log (Invoke i) w) (Handler_ServeHTTP d ?K (log (Invoke i) w)) es"
    "inner i 0 es"
    by blast
  have "adds w (run [Some d] i w) (Invoke i # es)" using es(1) by (simp add: adds_def)
  then show ?case using a shape_leaf(2) es(2) by auto
next
  case (Cons h hs)
  have sh: "\<And>w i. \<exists>es. adds w (run (h # hs) i w) es \<and> shape i (length (h # hs)) es"
  proof -
    fix w i
    show "\<exists>es. adds w (run (h # hs) i w) es \<and> shape i (length (h # hs)) es"
    proof (cases h)
      case None
      then have "adds w (run (h # hs) i w) []" by (simp add: adds_def)
      then show ?thesis using shape_leaf(1) by blast
    next
      case (Some d')
      from Cons.IH[of w i d'] obtain es where "adds w (run (Some d' # hs) i w) (Invoke i # es)"
        "inner i (length hs) es" by blast
      then show ?thesis using shape_step[of i "length hs" es] Some by auto
    qed
  qed
  let ?K = "\<lambda>w'. run (h # hs) (Suc i) (log (Continue i) w')"
  have K: "\<And>v. \<exists>es. adds v (?K v) es \<and> inner i (length (h # hs)) es"
  proof -
    fix v
    from sh[of "log (Continue i) v" "Suc i"]
    obtain es where es: "adds (log (Continue i) v) (?K v) es" "shape (Suc i) (length (h # hs)) es"
      by blast
    have "adds v (?K v) (Continue i # es)" using es(1) by (simp add: adds_def)
    then show "\<exists>es. adds v (?K v) es \<and> inner i (length (h # hs)) es"
      using inner_step[OF es(2)] by blast
  qed
  from Handler_adds[of ?K "inner i (length (h # hs))" "log (Invoke i) w" d, OF K inner_Nil inner_append]
  obtain es where es: "adds (log (Invoke i) w) (Handler_ServeHTTP d ?K (log (Invoke i) w)) es"
    "inner i (length (h # hs)) es"
    by blast
  have "adds w (run (Some d # h # hs) i w) (Invoke i # es)" using es(1) by (simp add: adds_def)
  then show ?case using sh[of w i] es(2) by blast
qed

lemma run_shape: "\<exists>es. adds w (run hs i w) es \<and> shape i (length hs) es"
  using run_shape_aux[of w hs i] by blast

lemma run_Some_shape:
  "\<exists>es. adds w (run (Some d # hs) i w) (Invoke i # es) \<and> inner i (length hs) es"
  using run_shape_aux[of w hs i d] by blast

lemma chained_cut:
  assumes "chained 0 es" and "Continue k \<notin> set es"
  shows "k < j \<Longrightarrow> Invoke j \<notin> set es"
proof (induction j)
  case 0
  then show ?case by simp
next
  case (Suc j)
  show ?case
  proof
    assume "Invoke (Suc j) \<in> set es"
    then have c: "Continue j \<in> set es" using assms(1) by (simp add: chained_def)
    then have "j \<noteq> k" using assms(2) by auto
    then have "k < j" using Suc.prems by simp
    moreover have "Invoke j \<in> set es" using c assms(1) by (simp add: chained_def)
    ultimately show False using Suc.IH by simp
  qed
qed

lemma chained_below:
  assumes "chained 0 es"
  shows "Invoke k \<in> set es \<Longrightarrow> j \<le> k \<Longrightarrow> Invoke j \<in> set es"
proof (induction k)
  case 0
  then show ?case by simp
next
  case (Suc k)
  show ?case
  proof (cases "j = Suc k")
    case True
    then show ?thesis using Suc.prems by simp
  next
    case False
    have "Continue k \<in> set es" using Suc.prems(1) assms by (simp add: chained_def)
    then have "Invoke k \<in> set es" using assms by (simp add: chained_def)
    then show ?thesis using Suc.IH False Suc.prems(2) by simp
  qed
qed

lemma count_passes:
  "count_list (passes i n) (Invoke j) = (if i \<le> j \<and> j < i + n then 1 else 0)"
  "count_list (passes i n) (Continue j) = (if i \<le> j \<and> j < i + n then 1 else 0)"
  by (induction n arbitrary: i) (auto simp: passes_Suc)

lemma exec_no_panic:
  assumes K: "\<And>v. \<exists>v'. K v = Returned v'"
  shows "no_panic b \<Longrightarrow> \<exists>w'. exec b K w = Returned w'"
proof (induction b arbitrary: w)
  case (Next b)
  from K[of w] obtain v' where "K w = Returned v'" by blast
  then show ?case using Next by simp
next
  case (Recover b h)
  then have "no_panic b" by simp
  from Recover.IH(1)[OF this, of w] show ?case by auto
qed auto

lemma run_panic_free:
  "(\<forall>h \<in> set hs. panic_free h) \<Longrightarrow> \<exists>w'. run hs i w = Returned w'"
proof (induction hs arbitrary: i w)
  case Nil
  then show ?case by simp
next
  case (Cons h hs)
  have K: "\<And>v. \<exists>v'. run hs (Suc i) (log (Continue i) v) = Returned v'"
    using Cons by simp
  have pf: "panic_free h" using Cons.prems by simp
  show ?case
  proof (cases h)
    case None
    then show ?thesis using pf by simp
  next
    case (Some d)
    show ?thesis
    proof (cases d)
      case (FuncVal f)
      then show ?thesis using Some pf exec_no_panic[of "\<lambda>v. run hs (Suc i) (log (Continue i) v)", OF K]
        by (cases f) (auto simp: HandlerFunc_ServeHTTP_def)
    next
      case (Impl isnil b)
      then show ?thesis using Some pf exec_no_panic[of "\<lambda>v. run hs (Suc i) (log (Continue i) v)", OF K]
        by auto
    qed
  qed
qed

lemma zero_middleware_panics:
  "middleware_ServeHTTP (Suc g) N i zero_middleware w = Panicked nil_deref w"
  by (simp add: zero_middleware_def)

lemma example_build: "build [] [write_then_next ''1''] = (middleware example_n1, nodes example_H1)"
  by (simp add: example_n1_def example_H1_def voidMiddleware_def)

lemma adds_unique: "adds w r es \<Longrightarrow> adds w r es' \<Longrightarrow> es = es'"
  by (simp add: adds_def)

lemma blocks_Nil: "blocks B []"
  unfolding blocks_def by (rule exI[of _ "[]"]) simp

lemma blocks_append: "blocks B a \<Longrightarrow> blocks B b \<Longrightarrow> blocks B (a @ b)"
proof -
  assume "blocks B a" "blocks B b"
  then obtain as bs where "a = concat as" "\<forall>e \<in> set as. B e" "b = concat bs" "\<forall>e \<in> set bs. B e"
    unfolding blocks_def by blast
  then have "a @ b = concat (as @ bs) \<and> (\<forall>e \<in> set (as @ bs). B e)" by auto
  then show ?thesis unfolding blocks_def by blast
qed

lemma blocks_single: "B e \<Longrightarrow> blocks B e"
  unfolding blocks_def by (rule exI[of _ "[e]"]) simp

lemma run_Some_blocks:
  "\<exists>es. adds w (run (Some d # hs) i w) (Invoke i # es) \<and> blocks (call_block hs i) es"
proof -
  let ?K = "\<lambda>w'. run hs (Suc i) (log (Continue i) w')"
  have K: "\<And>v. \<exists>es. adds v (?K v) es \<and> blocks (call_block hs i) es"
  proof -
    fix v
    from run_shape[of "log (Continue i) v" hs "Suc i"]
    obtain es where es: "adds (log (Continue i) v) (?K v) es" "shape (Suc i) (length hs) es"
      by blast
    have a: "adds v (?K v) (Continue i # es)" using es(1) by (simp add: adds_def)
    have "call_block hs i (Continue i # es)"
      unfolding call_block_def using es by blast
    then show "\<exists>es. adds v (?K v) es \<and> blocks (call_block hs i) es"
      using a blocks_single by blast
  qed
  from Handler_adds[of ?K "blocks (call_block hs i)" "log (Invoke i) w" d, OF K blocks_Nil blocks_append]
  obtain es where es: "adds (log (Invoke i) w) (Handler_ServeHTTP d ?K (log (Invoke i) w)) es"
    "blocks (call_block hs i) es"
    by blast
  have "adds w (run (Some d # hs) i w) (Invoke i # es)" using es(1) by (simp add: adds_def)
  then show ?thesis using es(2) by blast
qed

lemma shape_no_Continue_above:
  "shape (Suc i) n es \<Longrightarrow> Continue i \<notin> set es"
  unfolding shape_def by force

lemma count_call_blocks:
  "\<forall>e \<in> set bs. call_block hs i e \<Longrightarrow> count_list (concat bs) (Continue i) = length bs"
proof (induction bs)
  case Nil
  then show ?case by simp
next
  case (Cons b bs)
  then obtain es where b: "b = Continue i # es" "shape (Suc i) (length hs) es"
    unfolding call_block_def by auto
  have "count_list es (Continue i) = 0"
    using shape_no_Continue_above[OF b(2)] by (simp add: count_list_0_iff)
  then show ?case using Cons b(1) by simp
qed

lemma run_prefix_dyn:
  "adds w (run (xs @ ys) i w) es \<Longrightarrow>
   (\<forall>j. i \<le> j \<and> j < i + length xs \<longrightarrow> count_list es (Continue j) = 1) \<Longrightarrow>
   \<exists>v es'. es = passes i (length xs) @ es' \<and> adds v (run ys (i + length xs) v) es'"
proof (induction xs arbitrary: i w es)
  case Nil
  then show ?case by auto
next
  case (Cons h xs)
  have c: "count_list es (Continue i) = 1" using Cons.prems(2) by simp
  show ?case
  proof (cases h)
    case None
    then have "adds w (run ((h # xs) @ ys) i w) []" by (simp add: adds_def)
    then have "es = []" using Cons.prems(1) adds_unique by blast
    then show ?thesis using c by simp
  next
    case (Some d)
    from run_Some_blocks[of w d "xs @ ys" i]
    obtain es0 where es0: "adds w (run (Some d # xs @ ys) i w) (Invoke i # es0)"
      "blocks (call_block (xs @ ys) i) es0" by blast
    have e: "es = Invoke i # es0" using es0(1) Cons.prems(1) Some adds_unique by fastforce
    from es0(2) obtain bs where bs: "es0 = concat bs" "\<forall>e \<in> set bs. call_block (xs @ ys) i e"
      unfolding blocks_def by blast
    have "length bs = 1" using count_call_blocks[OF bs(2)] c e bs(1) by simp
    then obtain b where b: "bs = [b]" by (cases bs) auto
    then obtain v1 es1 where b1: "b = Continue i # es1" "adds v1 (run (xs @ ys) (Suc i) v1) es1"
      using bs(2) unfolding call_block_def by auto
    have e1: "es = Invoke i # Continue i # es1" using e bs(1) b b1(1) by simp
    have "\<forall>j. Suc i \<le> j \<and> j < Suc i + length xs \<longrightarrow> count_list es1 (Continue j) = 1"
    proof (intro allI impI)
      fix j assume j: "Suc i \<le> j \<and> j < Suc i + length xs"
      then have "count_list es (Continue j) = 1" using Cons.prems(2) by simp
      then show "count_list es1 (Continue j) = 1" using e1 j by simp
    qed
    from Cons.IH[OF b1(2) this]
    obtain v es' where v: "es1 = passes (Suc i) (length xs) @ es'"
      "adds v (run ys (Suc i + length xs) v) es'" by blast
    have "es = passes i (length (h # xs)) @ es'" using e1 v(1) by (simp add: passes_Suc)
    then show ?thesis using v(2) by auto
  qed
qed

lemma run_counted: "\<exists>es. adds w (run hs i w) es \<and> counted i es"
proof (induction hs arbitrary: i w)
  case Nil
  have "adds w (run [] i w) [Invoke i]" by (simp add: adds_def)
  moreover have "counted i [Invoke i]" by (simp add: counted_def)
  ultimately show ?case by blast
next
  case (Cons h hs)
  show ?case
  proof (cases h)
    case None
    then have "adds w (run (h # hs) i w) []" by (simp add: adds_def)
    moreover have "counted i []" by (simp add: counted_def)
    ultimately show ?thesis by blast
  next
    case (Some d)
    let ?K = "\<lambda>w'. run hs (Suc i) (log (Continue i) w')"
    let ?P = "\<lambda>es. count_list es (Invoke i) = 0
        \<and> (\<forall>j. i \<le> j \<longrightarrow> count_list es (Invoke (Suc j)) \<le> count_list es (Continue j))"
    have K: "\<And>v. \<exists>es. adds v (?K v) es \<and> ?P es"
    proof -
      fix v
      from Cons.IH[of "log (Continue i) v" "Suc i"]
      obtain es where es: "adds (log (Continue i) v) (?K v) es" "counted (Suc i) es" by blast
      from run_shape[of "log (Continue i) v" hs "Suc i"]
      obtain es' where "adds (log (Continue i) v) (?K v) es'" "shape (Suc i) (length hs) es'"
        by blast
      then have sh: "shape (Suc i) (length hs) es" using es(1) adds_unique by blast
      have ni: "Invoke i \<notin> set es" using sh unfolding shape_def by force
      have a: "adds v (?K v) (Continue i # es)" using es(1) by (simp add: adds_def)
      have nc: "Continue i \<notin> set es" using shape_no_Continue_above[OF sh] .
      have c0: "count_list es (Invoke i) = 0" "count_list es (Continue i) = 0"
        using ni nc by (simp_all add: count_list_0_iff)
      have c1: "count_list es (Invoke (Suc i)) \<le> 1"
        and c2: "\<And>j. Suc i \<le> j \<Longrightarrow> count_list es (Invoke (Suc j)) \<le> count_list es (Continue j)"
        using es(2) unfolding counted_def by simp_all
      have "\<forall>j. i \<le> j \<longrightarrow> count_list (Continue i # es) (Invoke (Suc j))
          \<le> count_list (Continue i # es) (Continue j)"
      proof (intro allI impI)
        fix j assume j: "i \<le> j"
        show "count_list (Continue i # es) (Invoke (Suc j)) \<le> count_list (Continue i # es) (Continue j)"
        proof (cases "j = i")
          case True
          then show ?thesis using c1 c0 by simp
        next
          case False
          then have "Suc i \<le> j" using j by simp
          from c2[OF this] show ?thesis using False by simp
        qed
      qed
      then have "?P (Continue i # es)" using c0 by simp
      then show "\<exists>es. adds v (?K v) es \<and> ?P es" using a by blast
    qed
    have P0: "?P []" by simp
    have PA: "\<And>a b. ?P a \<Longrightarrow> ?P b \<Longrightarrow> ?P (a @ b)"
      by (auto intro: add_mono)
    from Handler_adds[of ?K ?P "log (Invoke i) w" d, OF K P0 PA]
    obtain es where es: "adds (log (Invoke i) w) (Handler_ServeHTTP d ?K (log (Invoke i) w)) es"
      "?P es" by blast
    have "adds w (run (h # hs) i w) (Invoke i # es)" using es(1) Some by (simp add: adds_def)
    moreover have "counted i (Invoke i # es)" using es(2) unfolding counted_def by auto
    ultimately show ?thesis by blast
  qed
qed

lemma linked_nth_handler:
  assumes "linked lo N m hs" and "j < length hs"
  shows "\<exists>t. nth_node j N m = Some t \<and> handler t = hs ! j"
proof -
  have "hs = take j hs @ (hs ! j # drop (Suc j) hs)"
    using assms(2) by (simp add: Cons_nth_drop_Suc)
  then have "linked lo N m (take j hs @ (hs ! j # drop (Suc j) hs))" using assms(1) by simp
  from linked_nth_node[OF this] obtain t lo' where "nth_node (length (take j hs)) N m = Some t"
    "linked lo' N t (hs ! j # drop (Suc j) hs)" by blast
  then show ?thesis using assms(2) by (auto simp: min_def)
qed

lemma run_around_Cons:
  "run (around a b # hs) i w =
     (case run hs (Suc i) (log (Continue i) ((log (Invoke i) w)\<lparr>resp := a (resp w)\<rparr>)) of
        Returned w' \<Rightarrow> Returned (w'\<lparr>resp := b (resp w')\<rparr>)
      | Panicked msg w' \<Rightarrow> Panicked msg w'
      | OutOfFuel \<Rightarrow> OutOfFuel)"
  by (simp add: around_def HandlerFunc_ServeHTTP_def split: result.splits)

lemma run_around:
  "run (map (\<lambda>(a, b). around a b) ps) i w
   = Returned \<lparr>trace = trace w @ passes i (length ps) @ [Invoke (i + length ps)],
               resp = foldr (\<lambda>(a, b) g. b \<circ> g \<circ> a) ps id (resp w)\<rparr>"
proof (induction ps arbitrary: i w)
  case Nil
  then show ?case by (simp add: log_def)
next
  case (Cons p ps)
  obtain a b where p: "p = (a, b)" by (cases p)
  show ?case
    by (simp add: p run_around_Cons Cons.IH passes_Suc log_def del: run.simps)
qed

lemma passes_0_eq: "passes 0 n = concat (map (\<lambda>j. [Invoke j, Continue j]) [0 ..< n])"
  by (simp add: passes_def)

lemma gated_run:
  "middleware_ServeHTTP 4 (snd (build [] gated)) 0 (fst (build [] gated)) \<lparr>trace = [], resp = ''''\<rparr>
   = Returned \<lparr>trace = [Invoke 0, Continue 0, Invoke 1, Continue 1, Invoke 2], resp = ''23''\<rparr>"
  by (simp add: gated_def gate_def write_then_next_def write_only_def voidMiddleware_def
      zero_middleware_def HandlerFunc_ServeHTTP_def log_def eval_nat_numeral)

lemma gate_not_calls_once: "\<not> calls_once gate"
proof
  assume "calls_once gate"
  then have a: "\<forall>s :: string. nexts (if s = [] then Next Return else (Return :: string body)) 1"
    by (simp add: gate_def)
  from spec[OF a, of "''x''"] show False by simp
qed

section \<open>Properties\<close>

text \<open>
  C4. \<^verbatim>\<open>Use\<close> with the nil handler value fails, with the panic
  \<^verbatim>\<open>handler cannot be nil\<close>, and the failure leaves the stack as it was: the handlers
  slice, its elements, the chain field and every chain cell are unchanged.
\<close>

theorem Use_nil_panics_unchanged:
  "\<exists>n' H'. Use grow H n None = Panicked ''handler cannot be nil'' (n', H')
     \<and> handlers n' = handlers n
     \<and> elems (arrays H') (handlers n') = elems (arrays H) (handlers n)
     \<and> middleware n' = middleware n
     \<and> nodes H' = nodes H
     \<and> n' = n \<and> H' = H"
  by (simp add: Use_def)

theorem Use_nil_panics_unchanged_witness:
  "Use double example_H1 example_n1 None
     = Panicked ''handler cannot be nil'' (example_n1, example_H1)"
  using Use_nil_panics_unchanged[of double example_H1 example_n1] by auto


text \<open>
  C3. For every sequence of handlers \<open>[h0, ..., hn-1]\<close>, the chain that \<^verbatim>\<open>build\<close>
  returns, read back from the heap, is the right-nested
  \<open>Node h0 (Node h1 (... (Node hn-1 terminal)))\<close>; from the empty sequence it is just
  the terminal node.
\<close>

theorem build_right_nested:
  assumes "build N hs = (m, N')"
  shows "chain_of (length hs + 2) N' m = Some (foldr Node hs terminal)
         \<and> (hs = [] \<longrightarrow> chain_of 2 N' m = Some terminal)"
proof -
  have "linked (length N) N' m hs" using build_linked[OF assms] by simp
  then have "chain_of (length hs + 2 + 0) N' m = Some (foldr Node hs terminal)"
    by (rule linked_chain_of)
  then have c: "chain_of (length hs + 2) N' m = Some (foldr Node hs terminal)" by simp
  show ?thesis
  proof (intro conjI impI)
    show "chain_of (length hs + 2) N' m = Some (foldr Node hs terminal)" by (rule c)
  next
    assume "hs = []"
    with c show "chain_of 2 N' m = Some terminal" by (simp add: numeral_2_eq_2)
  qed
qed

theorem build_right_nested_witness:
  "build [] [Some (Impl True (Next Return)), Some (FuncVal (Some (Act (\<lambda>s. s @ ''2'') Return)))]
     = (\<lparr>handler = Some (Impl True (Next Return)), next = Some 0\<rparr>,
        [\<lparr>handler = Some (FuncVal (Some (Act (\<lambda>s. s @ ''2'') Return))), next = Some 1\<rparr>,
         \<lparr>handler = Some (FuncVal (Some Return)), next = Some 2\<rparr>,
         \<lparr>handler = None, next = None\<rparr>])
   \<and> chain_of 4
        [\<lparr>handler = Some (FuncVal (Some (Act (\<lambda>s. s @ ''2'') Return))), next = Some 1\<rparr>,
         \<lparr>handler = Some (FuncVal (Some Return)), next = Some 2\<rparr>,
         \<lparr>handler = None, next = None\<rparr>]
        \<lparr>handler = Some (Impl True (Next Return)), next = Some 0\<rparr>
     = Some (Node (Some (Impl True (Next Return)))
          (Node (Some (FuncVal (Some (Act (\<lambda>s. s @ ''2'') Return))))
            (Node (Some (FuncVal (Some Return))) (Node None Nil_ptr :: string chain))))"
proof -
  have b: "build [] [Some (Impl True (Next Return)), Some (FuncVal (Some (Act (\<lambda>s. s @ ''2'') Return)))]
     = (\<lparr>handler = Some (Impl True (Next Return)), next = Some 0\<rparr>,
        [\<lparr>handler = Some (FuncVal (Some (Act (\<lambda>s. s @ ''2'') Return))), next = Some 1\<rparr>,
         \<lparr>handler = Some (FuncVal (Some Return)), next = Some 2\<rparr>,
         \<lparr>handler = None, next = None :: nat option\<rparr> :: string middleware])"
    by (simp add: voidMiddleware_def zero_middleware_def Let_def)
  from build_right_nested[OF b] have c: "chain_of 4
        [\<lparr>handler = Some (FuncVal (Some (Act (\<lambda>s. s @ ''2'') Return))), next = Some 1\<rparr>,
         \<lparr>handler = Some (FuncVal (Some Return)), next = Some 2\<rparr>,
         \<lparr>handler = None, next = None\<rparr>]
        \<lparr>handler = Some (Impl True (Next Return)), next = Some 0\<rparr>
     = Some (Node (Some (Impl True (Next Return)))
          (Node (Some (FuncVal (Some (Act (\<lambda>s. s @ ''2'') Return))))
            (Node (Some (FuncVal (Some Return))) (Node None Nil_ptr :: string chain))))"
    by (simp add: terminal_def eval_nat_numeral)
  show ?thesis by (rule conjI[OF b c])
qed

text \<open>
  C1. For the chain built from any handler sequence (empty or not): the node at each
  position \<open>j\<close> of the chain holds the handler at position \<open>j\<close> of the sequence, and
  invoking the head of the chain is calling the handlers in the sequence's order.
  When every handler calls its continuation exactly once, on every path of its code
  or just in the invocation at hand, the handlers at positions \<open>0, ..., n-1\<close> are
  invoked each exactly once, in this order, and then the terminal node. For handlers
  that change the state before and after calling \<^verbatim>\<open>next\<close>, the changes before happen
  in the sequence's order and the changes after in the reverse order.
\<close>

theorem chain_order_is_configuration_order:
  assumes "build N hs = (m, N')"
  shows "(\<forall>j<length hs. \<exists>t. nth_node j N' m = Some t \<and> handler t = hs ! j)
         \<and> middleware_ServeHTTP (Suc (length hs + k)) N' 0 m (w :: 's world) = run hs 0 w
         \<and> ((\<forall>h \<in> set hs. calls_once h) \<longrightarrow>
               result_trace (middleware_ServeHTTP (Suc (length hs + k)) N' 0 m w)
               = Some (trace w @ concat (map (\<lambda>j. [Invoke j, Continue j]) [0 ..< length hs])
                         @ [Invoke (length hs)]))
         \<and> (result_trace (middleware_ServeHTTP (Suc (length hs + k)) N' 0 m w) = Some (trace w @ es)
              \<and> (\<forall>j<length hs. count_list es (Continue j) = 1) \<longrightarrow>
               es = concat (map (\<lambda>j. [Invoke j, Continue j]) [0 ..< length hs]) @ [Invoke (length hs)])
         \<and> (hs = map (\<lambda>(a, b). around a b) ps \<longrightarrow>
               middleware_ServeHTTP (Suc (length hs + k)) N' 0 m w
               = Returned \<lparr>trace = trace w @ concat (map (\<lambda>j. [Invoke j, Continue j]) [0 ..< length hs])
                                     @ [Invoke (length hs)],
                           resp = foldr (\<lambda>(a, b) g. b \<circ> g \<circ> a) ps id (resp w)\<rparr>)"
proof -
  have l: "linked (length N) N' m hs" using build_linked[OF assms] by simp
  then have eq: "middleware_ServeHTTP (Suc (length hs + k)) N' 0 m w = run hs 0 w"
    by (rule linked_run)
  have p1: "\<forall>j<length hs. \<exists>t. nth_node j N' m = Some t \<and> handler t = hs ! j"
    using linked_nth_handler[OF l] by blast
  have p3: "(\<forall>h \<in> set hs. calls_once h) \<longrightarrow>
               result_trace (middleware_ServeHTTP (Suc (length hs + k)) N' 0 m w)
               = Some (trace w @ passes 0 (length hs) @ [Invoke (length hs)])"
    using run_trace_once[of hs 0 w] eq by (simp add: expected_def passes_def)
  have p4: "es = passes 0 (length hs) @ [Invoke (length hs)]"
    if r: "result_trace (middleware_ServeHTTP (Suc (length hs + k)) N' 0 m w) = Some (trace w @ es)"
      and c: "\<forall>j<length hs. count_list es (Continue j) = 1"
  proof -
    have a: "adds w (run (hs @ []) 0 w) es" using r eq by (simp add: adds_def)
    have "\<forall>j. 0 \<le> j \<and> j < 0 + length hs \<longrightarrow> count_list es (Continue j) = 1" using c by simp
    from run_prefix_dyn[OF a this]
    obtain v :: "'s world" and es' where v: "es = passes 0 (length hs) @ es'"
      "adds v (run [] (0 + length hs) v) es'"
      by blast
    have "es' = [Invoke (length hs)]" using v(2) by (simp add: adds_def)
    then show ?thesis using v(1) by simp
  qed
  have p5: "hs = map (\<lambda>(a, b). around a b) ps \<longrightarrow>
               middleware_ServeHTTP (Suc (length hs + k)) N' 0 m w
               = Returned \<lparr>trace = trace w @ passes 0 (length hs) @ [Invoke (length hs)],
                           resp = foldr (\<lambda>(a, b) g. b \<circ> g \<circ> a) ps id (resp w)\<rparr>"
  proof
    assume h: "hs = map (\<lambda>(a, b). around a b) ps"
    have r: "run hs 0 w
        = Returned \<lparr>trace = trace w @ passes 0 (length hs) @ [Invoke (length hs)],
                    resp = foldr (\<lambda>(a, b) g. b \<circ> g \<circ> a) ps id (resp w)\<rparr>"
      unfolding h using run_around[of ps 0 w] by simp
    show "middleware_ServeHTTP (Suc (length hs + k)) N' 0 m w
        = Returned \<lparr>trace = trace w @ passes 0 (length hs) @ [Invoke (length hs)],
                    resp = foldr (\<lambda>(a, b) g. b \<circ> g \<circ> a) ps id (resp w)\<rparr>"
      by (rule trans[OF eq r])
  qed
  show ?thesis
  proof (intro conjI)
    show "\<forall>j<length hs. \<exists>t. nth_node j N' m = Some t \<and> handler t = hs ! j" by (rule p1)
    show "middleware_ServeHTTP (Suc (length hs + k)) N' 0 m w = run hs 0 w" by (rule eq)
    show "(\<forall>h \<in> set hs. calls_once h) \<longrightarrow>
               result_trace (middleware_ServeHTTP (Suc (length hs + k)) N' 0 m w)
               = Some (trace w @ concat (map (\<lambda>j. [Invoke j, Continue j]) [0 ..< length hs])
                         @ [Invoke (length hs)])"
      using p3 unfolding passes_0_eq .
    show "result_trace (middleware_ServeHTTP (Suc (length hs + k)) N' 0 m w) = Some (trace w @ es)
              \<and> (\<forall>j<length hs. count_list es (Continue j) = 1) \<longrightarrow>
               es = concat (map (\<lambda>j. [Invoke j, Continue j]) [0 ..< length hs]) @ [Invoke (length hs)]"
      using p4 unfolding passes_0_eq by blast
    show "hs = map (\<lambda>(a, b). around a b) ps \<longrightarrow>
               middleware_ServeHTTP (Suc (length hs + k)) N' 0 m w
               = Returned \<lparr>trace = trace w @ concat (map (\<lambda>j. [Invoke j, Continue j]) [0 ..< length hs])
                                     @ [Invoke (length hs)],
                           resp = foldr (\<lambda>(a, b) g. b \<circ> g \<circ> a) ps id (resp w)\<rparr>"
      using p5 unfolding passes_0_eq .
  qed
qed

theorem chain_order_is_configuration_order_witness:
  "build [] [write_then_next ''1'', write_then_next ''2'']
     = (\<lparr>handler = write_then_next ''1'', next = Some 0\<rparr>,
        [\<lparr>handler = write_then_next ''2'', next = Some 1\<rparr>,
         \<lparr>handler = Some (FuncVal (Some Return)), next = Some 2\<rparr>,
         zero_middleware])
   \<and> calls_once (write_then_next ''1'') \<and> calls_once (write_then_next ''2'')
   \<and> nth_node 1 [\<lparr>handler = write_then_next ''2'', next = Some 1\<rparr>,
                 \<lparr>handler = Some (FuncVal (Some Return)), next = Some 2\<rparr>,
                 zero_middleware]
         \<lparr>handler = write_then_next ''1'', next = Some 0\<rparr>
       = Some \<lparr>handler = write_then_next ''2'', next = Some 1\<rparr>
   \<and> middleware_ServeHTTP 3
         [\<lparr>handler = write_then_next ''2'', next = Some 1\<rparr>,
          \<lparr>handler = Some (FuncVal (Some Return)), next = Some 2\<rparr>,
          zero_middleware]
         0 \<lparr>handler = write_then_next ''1'', next = Some 0\<rparr> \<lparr>trace = [], resp = ''''\<rparr>
       = Returned \<lparr>trace = [Invoke 0, Continue 0, Invoke 1, Continue 1, Invoke 2], resp = ''12''\<rparr>
   \<and> count_list [Invoke 0, Continue 0, Invoke 1, Continue 1, Invoke 2] (Continue 0) = 1
   \<and> count_list [Invoke 0, Continue 0, Invoke 1, Continue 1, Invoke 2] (Continue 1) = 1
   \<and> middleware_ServeHTTP 3
         (snd (build [] [around (\<lambda>s. s @ ''a'') (\<lambda>s. s @ ''A''), around (\<lambda>s. s @ ''b'') (\<lambda>s. s @ ''B'')]))
         0 (fst (build [] [around (\<lambda>s. s @ ''a'') (\<lambda>s. s @ ''A''), around (\<lambda>s. s @ ''b'') (\<lambda>s. s @ ''B'')]))
         \<lparr>trace = [], resp = ''''\<rparr>
       = Returned \<lparr>trace = [Invoke 0, Continue 0, Invoke 1, Continue 1, Invoke 2], resp = ''abBA''\<rparr>"
proof -
  let ?N = "[\<lparr>handler = write_then_next ''2'', next = Some 1\<rparr>,
             \<lparr>handler = Some (FuncVal (Some Return)), next = Some 2\<rparr>,
             zero_middleware] :: string middleware list"
  let ?m = "\<lparr>handler = write_then_next ''1'', next = Some 0\<rparr> :: string middleware"
  let ?w = "\<lparr>trace = [], resp = ''''\<rparr> :: string world"
  let ?es = "[Invoke 0, Continue 0, Invoke 1, Continue 1, Invoke 2]"
  let ?ps = "[(\<lambda>s. s @ ''a'', \<lambda>s. s @ ''A''), (\<lambda>s. s @ ''b'', \<lambda>s. s @ ''B'')] :: ((string \<Rightarrow> string) \<times> (string \<Rightarrow> string)) list"
  let ?hs2 = "[around (\<lambda>s. s @ ''a'') (\<lambda>s. s @ ''A''), around (\<lambda>s. s @ ''b'') (\<lambda>s. s @ ''B'')] :: string Handler list"
  have b: "build [] [write_then_next ''1'', write_then_next ''2''] = (?m, ?N)"
    by (simp add: voidMiddleware_def)
  have co: "\<forall>h \<in> set [write_then_next ''1'', write_then_next ''2'']. calls_once h"
    by (simp add: write_then_next_def)
  note t = chain_order_is_configuration_order[OF b, of 0 ?w ?es]
  note t3 = t[THEN conjunct2, THEN conjunct2, THEN conjunct1, THEN mp, OF co]
  have n1: "nth_node 1 ?N ?m = Some \<lparr>handler = write_then_next ''2'', next = Some 1\<rparr>"
    by simp
  have run: "middleware_ServeHTTP 3 ?N 0 ?m ?w = Returned \<lparr>trace = ?es, resp = ''12''\<rparr>"
    by (simp add: eval_nat_numeral write_then_next_def HandlerFunc_ServeHTTP_def log_def
        zero_middleware_def)
  have tr: "result_trace (middleware_ServeHTTP 3 ?N 0 ?m ?w) = Some ?es"
    using t3 by (simp add: eval_nat_numeral)
  have b2: "build [] ?hs2 = (fst (build [] ?hs2), snd (build [] ?hs2))" by simp
  have m2: "?hs2 = map (\<lambda>(a, b). around a b) ?ps" by simp
  note t5 = chain_order_is_configuration_order[OF b2, of 0 ?w "[]" ?ps, THEN conjunct2, THEN conjunct2, THEN conjunct2,
      THEN conjunct2, THEN mp, OF m2]
  have ar: "middleware_ServeHTTP 3 (snd (build [] ?hs2)) 0 (fst (build [] ?hs2)) ?w
       = Returned \<lparr>trace = ?es, resp = ''abBA''\<rparr>"
    using t5 by (simp add: eval_nat_numeral)
  show ?thesis using b co n1 run tr ar by simp
qed

text \<open>
  C8. The chain built from the empty sequence, invoked in any state, returns
  normally and leaves the response as it was: only the ghost trace records the
  invocation of the terminal node. The same holds for a stack created with no
  handlers, whose \<^verbatim>\<open>ServeHTTP\<close> only wraps the response writer.
\<close>

theorem empty_chain_no_effect:
  "(build N [] = (m, N') \<longrightarrow>
      middleware_ServeHTTP (Suc k) N' i m w = Returned (w\<lparr>trace := trace w @ [Invoke i]\<rparr>))
   \<and> (len s = 0 \<and> New H s = (n, H') \<longrightarrow>
      Negroni_ServeHTTP nrw (Suc k) H' n w
        = Returned (w\<lparr>resp := nrw (resp w), trace := trace w @ [Invoke 0]\<rparr>))"
proof (intro conjI impI)
  assume b: "build N [] = (m, N')"
  have "linked (length N) N' m []" using build_linked[OF b] by simp
  from linked_run[OF this, of k i w]
  show "middleware_ServeHTTP (Suc k) N' i m w = Returned (w\<lparr>trace := trace w @ [Invoke i]\<rparr>)"
    by (simp add: log_def)
next
  assume a: "len s = 0 \<and> New H s = (n, H')"
  then have e: "elems (arrays H) s = []" by (simp add: elems_def)
  obtain m N' where b: "build (nodes H) [] = (m, N')" by (cases "build (nodes H) []") auto
  then have n: "middleware n = m" "nodes H' = N'" using a e by (auto simp: New_def)
  have "linked (length (nodes H)) N' m []" using build_linked[OF b] by simp
  from linked_run[OF this, of k 0 "w\<lparr>resp := nrw (resp w)\<rparr>"]
  show "Negroni_ServeHTTP nrw (Suc k) H' n w
        = Returned (w\<lparr>resp := nrw (resp w), trace := trace w @ [Invoke 0]\<rparr>)"
    using n by (simp add: Negroni_ServeHTTP_def log_def)
qed

theorem empty_chain_no_effect_witness:
  "middleware_ServeHTTP 1 (snd (build [] [])) 0 (fst (build [] [])) \<lparr>trace = [], resp = ''''\<rparr>
     = Returned \<lparr>trace = [Invoke 0], resp = ''''\<rparr>
   \<and> Negroni_ServeHTTP (\<lambda>s. s) 1
        (snd (New \<lparr>nodes = [], arrays = []\<rparr> \<lparr>arr = 0, off = 0, len = 0, cap = 0\<rparr>))
        (fst (New \<lparr>nodes = [], arrays = []\<rparr> \<lparr>arr = 0, off = 0, len = 0, cap = 0\<rparr>))
        \<lparr>trace = [], resp = ''''\<rparr>
     = Returned \<lparr>trace = [Invoke 0], resp = ''''\<rparr>"
  using empty_chain_no_effect[of "[]" "fst (build [] [])" "snd (build [] [])" 0 0
      "\<lparr>trace = [], resp = ''''\<rparr>" "\<lparr>arr = 0, off = 0, len = 0, cap = 0\<rparr>"
      "\<lparr>nodes = [], arrays = []\<rparr>"
      "fst (New \<lparr>nodes = [], arrays = []\<rparr> \<lparr>arr = 0, off = 0, len = 0, cap = 0\<rparr>)"
      "snd (New \<lparr>nodes = [], arrays = []\<rparr> \<lparr>arr = 0, off = 0, len = 0, cap = 0\<rparr>)"
      "\<lambda>s. s"]
  by (simp add: voidMiddleware_def zero_middleware_def New_def Negroni_ServeHTTP_def
      HandlerFunc_ServeHTTP_def log_def elems_def)

text \<open>
  C6. After \<^verbatim>\<open>New\<close> with any initial handlers, after every successful \<^verbatim>\<open>Use\<close>, and
  after any sequence of \<^verbatim>\<open>Use\<close> calls on a new stack, the chain field reads the same
  as the chain rebuilt from the current handlers sequence: the right-nested chain of
  exactly these handlers.
\<close>

theorem chain_synced_with_handlers:
  "(New H s = (n, H') \<longrightarrow> synced H' n)
   \<and> (Use grow H1 n1 h = Returned (n2, H2) \<longrightarrow> synced H2 n2)
   \<and> (New H s = (n, H') \<longrightarrow> synced (snd (uses grow (n, H') gs)) (fst (uses grow (n, H') gs)))"
proof (intro conjI impI)
  assume a: "New H s = (n, H')"
  show "synced H' n" using New_linked[OF a] by (intro linked_synced) blast
  have "stack_ok (snd (n, H')) (fst (n, H'))" using New_stack_ok[OF a] by simp
  from uses_stack_ok[OF this, of grow gs]
  show "synced (snd (uses grow (n, H') gs)) (fst (uses grow (n, H') gs))"
    unfolding stack_ok_def by (rule linked_synced)
next
  assume a: "Use grow H1 n1 h = Returned (n2, H2)"
  show "synced H2 n2" using Use_Returned[OF a] by (intro linked_synced) blast
qed

theorem chain_synced_with_handlers_witness:
  "New example_H0 example_s0 = (example_n1, example_H1)
   \<and> Use double example_H1 example_n1 (write_only ''2'') = Returned (example_n2, example_H2)
   \<and> synced example_H1 example_n1 \<and> synced example_H2 example_n2
   \<and> chain_of 4 (nodes example_H2) (middleware example_n2)
       = Some (Node (write_then_next ''1'') (Node (write_only ''2'') terminal))"
proof -
  note t = chain_synced_with_handlers[where H = example_H0 and s = example_s0 and n = example_n1
      and H' = example_H1 and grow = double and ?H1.0 = example_H1 and ?n1.0 = example_n1
      and h = "write_only ''2''" and ?n2.0 = example_n2 and ?H2.0 = example_H2 and gs = "[]"]
  have a: "synced example_H1 example_n1" using t example_New by simp
  have b: "synced example_H2 example_n2" using t example_Use by blast
  have c: "chain_of 4 (nodes example_H2) (middleware example_n2)
       = Some (Node (write_then_next ''1'') (Node (write_only ''2'') terminal))"
    by (simp add: example_H2_def example_n2_def eval_nat_numeral zero_middleware_def terminal_def)
  show ?thesis using a b c example_New example_Use by simp
qed

text \<open>
  C5. For a stack made by \<^verbatim>\<open>New\<close> and any \<^verbatim>\<open>Use\<close> calls, and its chain captured
  before a successful \<^verbatim>\<open>Use(h)\<close> (the head node is copied, as the value receiver of
  \<^verbatim>\<open>ServeHTTP\<close> does): invoking the captured chain in the heap after the rebuild gives
  the result it gives in the heap before it, for every state, depth and fuel. The
  rebuild leaves every cell that existed as it was, and the new chain lies in cells
  allocated by the rebuild.
\<close>

theorem old_chain_unaffected_by_use:
  assumes "New H0 s = (n0, H1)" and "uses grow (n0, H1) gs = (n, H)"
    and "Use grow H n h = Returned (n', H')"
  shows "middleware_ServeHTTP fuel (nodes H') i (middleware n) w
           = middleware_ServeHTTP fuel (nodes H) i (middleware n) w
         \<and> take (length (nodes H)) (nodes H') = nodes H
         \<and> linked (length (nodes H)) (nodes H') (middleware n') (elems (arrays H') (handlers n'))"
proof -
  have "stack_ok (snd (n0, H1)) (fst (n0, H1))" using New_stack_ok[OF assms(1)] by simp
  from uses_stack_ok[OF this, of grow gs]
  have ok: "linked 0 (nodes H) (middleware n) (elems (arrays H) (handlers n))"
    using assms(2) by (simp add: stack_ok_def)
  note u = Use_Returned[OF assms(3)]
  have le: "length (nodes H) \<le> length (nodes H')" using u by simp
  have same: "\<And>a. a < length (nodes H) \<Longrightarrow> nodes H' ! a = nodes H ! a"
  proof -
    fix a assume "a < length (nodes H)"
    then have "take (length (nodes H)) (nodes H') ! a = nodes H' ! a" by simp
    then show "nodes H' ! a = nodes H ! a" using u by simp
  qed
  from linked_ServeHTTP_frame[OF ok le same, of fuel i w] show ?thesis using u by simp
qed

theorem old_chain_unaffected_by_use_witness:
  "New example_H0 example_s0 = (example_n1, example_H1)
   \<and> uses double (example_n1, example_H1) [] = (example_n1, example_H1)
   \<and> Use double example_H1 example_n1 (write_only ''2'') = Returned (example_n2, example_H2)
   \<and> middleware_ServeHTTP 3 (nodes example_H2) 0 (middleware example_n1) \<lparr>trace = [], resp = ''''\<rparr>
       = middleware_ServeHTTP 3 (nodes example_H1) 0 (middleware example_n1) \<lparr>trace = [], resp = ''''\<rparr>
   \<and> middleware_ServeHTTP 3 (nodes example_H2) 0 (middleware example_n1) \<lparr>trace = [], resp = ''''\<rparr>
       = Returned \<lparr>trace = [Invoke 0, Continue 0, Invoke 1], resp = ''1''\<rparr>
   \<and> middleware_ServeHTTP 3 (nodes example_H2) 0 (middleware example_n2) \<lparr>trace = [], resp = ''''\<rparr>
       = Returned \<lparr>trace = [Invoke 0, Continue 0, Invoke 1], resp = ''12''\<rparr>"
proof -
  have u: "uses double (example_n1, example_H1) [] = (example_n1, example_H1)" by simp
  note t = old_chain_unaffected_by_use[OF example_New u example_Use, of 3 0 "\<lparr>trace = [], resp = ''''\<rparr>"]
  have a: "middleware_ServeHTTP 3 (nodes example_H1) 0 (middleware example_n1) \<lparr>trace = [], resp = ''''\<rparr>
       = Returned \<lparr>trace = [Invoke 0, Continue 0, Invoke 1], resp = ''1''\<rparr>"
    by (simp add: example_H1_def example_n1_def eval_nat_numeral write_then_next_def
        HandlerFunc_ServeHTTP_def log_def)
  have b: "middleware_ServeHTTP 3 (nodes example_H2) 0 (middleware example_n2) \<lparr>trace = [], resp = ''''\<rparr>
       = Returned \<lparr>trace = [Invoke 0, Continue 0, Invoke 1], resp = ''12''\<rparr>"
    by (simp add: example_H2_def example_n2_def eval_nat_numeral write_then_next_def write_only_def
        HandlerFunc_ServeHTTP_def log_def)
  show ?thesis using t a b example_New example_Use u by simp
qed

text \<open>
  C7. As stated (\<^verbatim>\<open>Handlers\<close> hands out a snapshot, so that writing to the returned
  sequence does not change the stack's own handlers), the claim fails: \<^verbatim>\<open>Handlers\<close>
  returns the stack's slice itself, and an assignment to an element of it is an
  assignment to the same element of the stack's handlers.
\<close>

theorem handlers_snapshot_counterexample:
  "New example_H0 example_s0 = (example_n1, example_H1)
   \<and> elems (arrays example_H1) (handlers example_n1) = [write_then_next ''1'']
   \<and> slice_store example_H1 (Handlers example_n1) 0 (write_only ''2'')
       = Returned (example_H1\<lparr>arrays := [[write_only ''2'']]\<rparr>)
   \<and> elems (arrays (example_H1\<lparr>arrays := [[write_only ''2'']]\<rparr>)) (handlers example_n1)
       = [write_only ''2'']
   \<and> elems (arrays (example_H1\<lparr>arrays := [[write_only ''2'']]\<rparr>)) (handlers example_n1)
       \<noteq> elems (arrays example_H1) (handlers example_n1)"
  using example_New
  by (simp add: slice_store_def Handlers_def example_n1_def example_H1_def example_s0_def elems_def
      write_only_def write_then_next_def)

text \<open>
  C7, amended. On a stack made by \<^verbatim>\<open>New\<close> and a run of \<^verbatim>\<open>Use\<close> calls, \<^verbatim>\<open>Handlers\<close>
  returns the create-time handlers followed by the handlers of the successful \<^verbatim>\<open>Use\<close>
  calls, in order. The returned slice shares its backing array with the stack: an
  assignment to its element \<open>i\<close> changes element \<open>i\<close> of the stack's handlers sequence,
  and leaves the chain cells, hence what the chain does, as they were.
\<close>

theorem handlers_history_not_snapshot:
  assumes "wf_slice (arrays H0) s" and "New H0 s = (n0, H1)" and "uses grow (n0, H1) gs = (n, H)"
  shows "elems (arrays H) (Handlers n) = elems (arrays H0) s @ filter (\<lambda>h. h \<noteq> None) gs
         \<and> (slice_store H (Handlers n) i v = Returned H' \<longrightarrow>
              elems (arrays H') (handlers n) = (elems (arrays H) (handlers n))[i := v]
              \<and> nodes H' = nodes H
              \<and> middleware_ServeHTTP fuel (nodes H') j (middleware n) w
                  = middleware_ServeHTTP fuel (nodes H) j (middleware n) w)"
proof -
  have n0: "arrays H1 = arrays H0" "handlers n0 = s" using New_linked[OF assms(2)] by simp_all
  then have "wf_slice (arrays (snd (n0, H1))) (handlers (fst (n0, H1)))" using assms(1) by simp
  from uses_history[OF this, of grow gs]
  have wf: "wf_slice (arrays H) (handlers n)"
    and hist: "elems (arrays H) (handlers n) = elems (arrays H0) s @ filter (\<lambda>h. h \<noteq> None) gs"
    using assms(3) n0 by simp_all
  have "elems (arrays H') (handlers n) = (elems (arrays H) (handlers n))[i := v] \<and> nodes H' = nodes H"
    if st: "slice_store H (Handlers n) i v = Returned H'"
  proof -
    from st have i: "i < len (handlers n)"
      and H': "H' = H\<lparr>arrays := (arrays H)[arr (handlers n) := (arrays H ! arr (handlers n))[off (handlers n) + i := v]]\<rparr>"
      by (auto simp: slice_store_def Handlers_def split: if_splits)
    show ?thesis using elems_store[OF wf i, of v] by (simp add: H')
  qed
  then show ?thesis using hist by (auto simp: Handlers_def)
qed

theorem handlers_history_not_snapshot_witness:
  "wf_slice (arrays example_H0) example_s0
   \<and> New example_H0 example_s0 = (example_n1, example_H1)
   \<and> uses double (example_n1, example_H1) [None, write_only ''2''] = (example_n2, example_H2)
   \<and> elems (arrays example_H2) (Handlers example_n2) = [write_then_next ''1'', write_only ''2'']
   \<and> slice_store example_H2 (Handlers example_n2) 1 (write_only ''3'')
       = Returned (example_H2\<lparr>arrays := [[write_then_next ''1''], [write_then_next ''1'', write_only ''3'']]\<rparr>)
   \<and> elems [[write_then_next ''1''], [write_then_next ''1'', write_only ''3'']] (handlers example_n2)
       = [write_then_next ''1'', write_only ''3'']
   \<and> nodes (example_H2\<lparr>arrays := [[write_then_next ''1''], [write_then_next ''1'', write_only ''3'']]\<rparr>)
       = nodes example_H2"
proof -
  have wf: "wf_slice (arrays example_H0) example_s0"
    by (simp add: wf_slice_def example_H0_def example_s0_def)
  have u: "uses double (example_n1, example_H1) [None, write_only ''2''] = (example_n2, example_H2)"
  proof -
    have p: "Use double example_H1 example_n1 None
        = Panicked ''handler cannot be nil'' (example_n1, example_H1)"
      by (simp add: Use_def)
    show ?thesis using p example_Use by simp
  qed
  have st: "slice_store example_H2 (Handlers example_n2) 1 (write_only ''3'')
       = Returned (example_H2\<lparr>arrays := [[write_then_next ''1''], [write_then_next ''1'', write_only ''3'']]\<rparr>)"
    by (simp add: slice_store_def Handlers_def example_n2_def example_H2_def)
  note t = handlers_history_not_snapshot[OF wf example_New u, of 1 "write_only ''3''"
      "example_H2\<lparr>arrays := [[write_then_next ''1''], [write_then_next ''1'', write_only ''3'']]\<rparr>"
      0 0 "\<lparr>trace = [], resp = ''''\<rparr>"]
  have e0: "elems (arrays example_H0) example_s0 = [write_then_next ''1'']"
    by (simp add: elems_def example_H0_def example_s0_def)
  have a: "elems (arrays example_H2) (Handlers example_n2) = [write_then_next ''1'', write_only ''2'']"
    using t e0 by (simp add: write_only_def)
  have b: "elems [[write_then_next ''1''], [write_then_next ''1'', write_only ''3'']] (handlers example_n2)
       = [write_then_next ''1'', write_only ''3'']"
    using t st a by (simp add: Handlers_def)
  show ?thesis using wf example_New u a st b by simp
qed

text \<open>
  C2. As stated, for every handler sequence, the claim fails in two ways. A handler
  before position \<open>k\<close> may call its continuation twice: with a first handler that
  calls \<^verbatim>\<open>next\<close> twice and a handler at position 2 that never calls it, the handler
  at position 1 is invoked twice. And a handler before position \<open>k\<close> may not call
  its continuation at all: with a first handler that returns at once, the handler at
  position 2 never calls \<^verbatim>\<open>next\<close> (it is never invoked), and the handler at position 1
  is invoked zero times.
\<close>

theorem short_circuit_counterexample:
  "result_trace (middleware_ServeHTTP 4
       (snd (build [] [next_twice, write_then_next ''2'', write_only ''3'']))
       0 (fst (build [] [next_twice, write_then_next ''2'', write_only ''3'']))
       \<lparr>trace = [], resp = ''''\<rparr>)
     = Some ([] @ [Invoke 0, Continue 0, Invoke 1, Continue 1, Invoke 2,
                   Continue 0, Invoke 1, Continue 1, Invoke 2])
   \<and> Continue 2 \<notin> set [Invoke 0, Continue 0, Invoke 1, Continue 1, Invoke 2,
                         Continue 0, Invoke 1, Continue 1, Invoke 2]
   \<and> count_list [Invoke 0, Continue 0, Invoke 1, Continue 1, Invoke 2,
                  Continue 0, Invoke 1, Continue 1, Invoke 2] (Invoke 1) = 2
   \<and> count_list [Invoke 0, Continue 0, Invoke 1, Continue 1, Invoke 2,
                  Continue 0, Invoke 1, Continue 1, Invoke 2] (Invoke 1) \<noteq> 1
   \<and> result_trace (middleware_ServeHTTP 4
       (snd (build [] [write_only ''1'', write_then_next ''2'', write_only ''3'']))
       0 (fst (build [] [write_only ''1'', write_then_next ''2'', write_only ''3'']))
       \<lparr>trace = [], resp = ''''\<rparr>)
     = Some ([] @ [Invoke 0])
   \<and> Continue 2 \<notin> set [Invoke 0]
   \<and> count_list [Invoke 0] (Invoke 1) = 0
   \<and> count_list [Invoke 0] (Invoke 1) \<noteq> 1"
  by (simp add: next_twice_def write_then_next_def write_only_def voidMiddleware_def
      zero_middleware_def HandlerFunc_ServeHTTP_def log_def eval_nat_numeral)

text \<open>
  C2, amended. In an invocation of the built chain in which the handler at position
  \<open>k\<close> does not call its continuation, no handler at a position greater than \<open>k\<close>
  is invoked. If moreover no handler before position \<open>k\<close> calls its continuation
  more than once in that invocation, no handler up to position \<open>k\<close> is invoked more
  than once; and if also the handler at position \<open>k\<close> is invoked, every handler
  before it has been invoked exactly once: the invocation is the handlers
  \<open>0, ..., k\<close> in order. The node at each position holds the handler at that
  position of the sequence, and the invocation is the call of the handlers in the
  sequence's order.
\<close>

theorem short_circuit_stops_chain:
  assumes b: "build N hs = (m, N')"
    and r: "result_trace (middleware_ServeHTTP (Suc (length hs + f)) N' 0 m (w :: 's world))
              = Some (trace w @ es)"
    and k: "k < length hs" and nc: "Continue k \<notin> set es"
  shows "(\<forall>j<length hs. \<exists>t. nth_node j N' m = Some t \<and> handler t = hs ! j)
         \<and> middleware_ServeHTTP (Suc (length hs + f)) N' 0 m w = run hs 0 w
         \<and> (\<forall>j. k < j \<longrightarrow> Invoke j \<notin> set es)
         \<and> (Invoke k \<in> set es \<longrightarrow> (\<forall>j<k. Invoke j \<in> set es))
         \<and> ((\<forall>j<k. count_list es (Continue j) \<le> 1) \<longrightarrow>
               (\<forall>j\<le>k. count_list es (Invoke j) \<le> 1)
               \<and> (Invoke k \<in> set es \<longrightarrow>
                    (\<forall>j<k. count_list es (Invoke j) = 1)
                    \<and> es = concat (map (\<lambda>j. [Invoke j, Continue j]) [0 ..< k]) @ [Invoke k]))
         \<and> ((\<forall>j<k. count_list es (Continue j) = 1) \<longrightarrow>
               (\<forall>j<k. count_list es (Invoke j) = 1)
               \<and> (es = concat (map (\<lambda>j. [Invoke j, Continue j]) [0 ..< k])
                    \<or> es = concat (map (\<lambda>j. [Invoke j, Continue j]) [0 ..< k]) @ [Invoke k]))"
proof -
  have l: "linked (length N) N' m hs" using build_linked[OF b] by simp
  then have eq: "middleware_ServeHTTP (Suc (length hs + f)) N' 0 m w = run hs 0 w"
    by (rule linked_run)
  have a: "adds w (run hs 0 w) es" using r eq by (simp add: adds_def)
  from run_shape[of w hs 0] obtain es0 where "adds w (run hs 0 w) es0" "shape 0 (length hs) es0"
    by blast
  then have sh: "shape 0 (length hs) es" using a adds_unique by blast
  then have ch: "chained 0 es" by (simp add: shape_def)
  from run_counted[of w hs 0] obtain es1 where "adds w (run hs 0 w) es1" "counted 0 es1"
    by blast
  then have cn: "counted 0 es" using a adds_unique by blast
  have p0: "\<forall>j<length hs. \<exists>t. nth_node j N' m = Some t \<and> handler t = hs ! j"
    using linked_nth_handler[OF l] by blast
  have p1: "\<forall>j. k < j \<longrightarrow> Invoke j \<notin> set es" using chained_cut[OF ch nc] by blast
  have p2: "Invoke k \<in> set es \<longrightarrow> (\<forall>j<k. Invoke j \<in> set es)"
    using chained_below[OF ch, of k] by simp
  have d: "(\<forall>j<k. count_list es (Invoke j) = 1)
           \<and> (es = passes 0 k \<or> es = passes 0 k @ [Invoke k])"
    if c1: "\<forall>j<k. count_list es (Continue j) = 1"
  proof -
    have a': "adds w (run (take k hs @ drop k hs) 0 w) es" using a by simp
    have "\<forall>j. 0 \<le> j \<and> j < 0 + length (take k hs) \<longrightarrow> count_list es (Continue j) = 1"
      using c1 by simp
    from run_prefix_dyn[OF a' this]
    obtain v :: "'s world" and es' where v: "es = passes 0 (length (take k hs)) @ es'"
      "adds v (run (drop k hs) (0 + length (take k hs)) v) es'"
      by blast
    have lk: "length (take k hs) = k" using k by simp
    from run_shape[of v "drop k hs" k]
    obtain es2 where "adds v (run (drop k hs) k v) es2" "shape k (length (drop k hs)) es2"
      by blast
    then have sh': "shape k (length (drop k hs)) es'" using v(2) lk adds_unique by fastforce
    have e: "es = passes 0 k @ es'" using v(1) lk by simp
    then have nc': "Continue k \<notin> set es'" using nc by simp
    have "es' = [] \<or> es' = [Invoke k]" using sh' nc' unfolding shape_def by auto
    then show ?thesis using e by (auto simp: count_passes)
  qed
  have c: "(\<forall>j\<le>k. count_list es (Invoke j) \<le> 1)
           \<and> (Invoke k \<in> set es \<longrightarrow>
                (\<forall>j<k. count_list es (Invoke j) = 1) \<and> es = passes 0 k @ [Invoke k])"
    if c1: "\<forall>j<k. count_list es (Continue j) \<le> 1"
  proof (intro conjI allI impI)
    fix j assume j: "j \<le> k"
    show "count_list es (Invoke j) \<le> 1"
    proof (cases j)
      case 0
      then show ?thesis using cn by (simp add: counted_def)
    next
      case (Suc j')
      then have "j' < k" using j by simp
      then have "count_list es (Continue j') \<le> 1" using c1 by simp
      moreover have "count_list es (Invoke (Suc j')) \<le> count_list es (Continue j')"
        using cn by (simp add: counted_def)
      ultimately show ?thesis using Suc by simp
    qed
  next
    assume ik: "Invoke k \<in> set es"
    have ex: "\<forall>j<k. count_list es (Continue j) = 1"
    proof (intro allI impI)
      fix j assume j: "j < k"
      then have "Invoke (Suc j) \<in> set es" using chained_below[OF ch ik, of "Suc j"] by simp
      then have "Continue j \<in> set es" using ch by (simp add: chained_def)
      then have "count_list es (Continue j) \<noteq> 0" by (simp add: count_list_0_iff)
      then show "count_list es (Continue j) = 1" using c1 j
        by (metis One_nat_def le_Suc_eq le_zero_eq)
    qed
    note dd = d[OF ex]
    show "\<And>j. j < k \<Longrightarrow> count_list es (Invoke j) = 1" using dd by simp
    have "Invoke k \<notin> set (passes 0 k)"
      using count_passes(1)[of 0 k k] by (simp add: count_list_0_iff)
    then show "es = passes 0 k @ [Invoke k]" using dd ik by auto
  qed
  show ?thesis
  proof (intro conjI)
    show "\<forall>j<length hs. \<exists>t. nth_node j N' m = Some t \<and> handler t = hs ! j" by (rule p0)
    show "middleware_ServeHTTP (Suc (length hs + f)) N' 0 m w = run hs 0 w" by (rule eq)
    show "\<forall>j. k < j \<longrightarrow> Invoke j \<notin> set es" by (rule p1)
    show "Invoke k \<in> set es \<longrightarrow> (\<forall>j<k. Invoke j \<in> set es)" by (rule p2)
    show "(\<forall>j<k. count_list es (Continue j) \<le> 1) \<longrightarrow>
               (\<forall>j\<le>k. count_list es (Invoke j) \<le> 1)
               \<and> (Invoke k \<in> set es \<longrightarrow>
                    (\<forall>j<k. count_list es (Invoke j) = 1)
                    \<and> es = concat (map (\<lambda>j. [Invoke j, Continue j]) [0 ..< k]) @ [Invoke k])"
      using c unfolding passes_0_eq by blast
    show "(\<forall>j<k. count_list es (Continue j) = 1) \<longrightarrow>
               (\<forall>j<k. count_list es (Invoke j) = 1)
               \<and> (es = concat (map (\<lambda>j. [Invoke j, Continue j]) [0 ..< k])
                    \<or> es = concat (map (\<lambda>j. [Invoke j, Continue j]) [0 ..< k]) @ [Invoke k])"
      using d unfolding passes_0_eq by blast
  qed
qed

theorem short_circuit_stops_chain_witness:
  "middleware_ServeHTTP 4 (snd (build [] gated)) 0 (fst (build [] gated)) \<lparr>trace = [], resp = ''''\<rparr>
     = Returned \<lparr>trace = [Invoke 0, Continue 0, Invoke 1, Continue 1, Invoke 2], resp = ''23''\<rparr>
   \<and> \<not> calls_once (gated ! 0)
   \<and> Continue 2 \<notin> set [Invoke 0, Continue 0, Invoke 1, Continue 1, Invoke 2]
   \<and> count_list [Invoke 0, Continue 0, Invoke 1, Continue 1, Invoke 2] (Continue 0) \<le> 1
   \<and> count_list [Invoke 0, Continue 0, Invoke 1, Continue 1, Invoke 2] (Continue 1) \<le> 1
   \<and> Invoke 2 \<in> set [Invoke 0, Continue 0, Invoke 1, Continue 1, Invoke 2]
   \<and> Invoke 3 \<notin> set [Invoke 0, Continue 0, Invoke 1, Continue 1, Invoke 2]
   \<and> count_list [Invoke 0, Continue 0, Invoke 1, Continue 1, Invoke 2] (Invoke 0) = 1
   \<and> count_list [Invoke 0, Continue 0, Invoke 1, Continue 1, Invoke 2] (Invoke 1) = 1"
proof -
  let ?w = "\<lparr>trace = [], resp = ''''\<rparr> :: string world"
  let ?es = "[Invoke 0, Continue 0, Invoke 1, Continue 1, Invoke 2]"
  have b: "build [] gated = (fst (build [] gated), snd (build [] gated))" by simp
  have r: "result_trace (middleware_ServeHTTP (Suc (length gated + 0)) (snd (build [] gated)) 0
      (fst (build [] gated)) ?w) = Some (trace ?w @ ?es)"
  proof -
    have "Suc (length gated + 0) = 4" by (simp add: gated_def)
    then show ?thesis using gated_run by simp
  qed
  have k: "2 < length gated" by (simp add: gated_def)
  have nc: "Continue 2 \<notin> set ?es" by simp
  have am: "\<forall>j<2. count_list ?es (Continue j) \<le> 1" by (simp add: less_Suc_eq numeral_2_eq_2)
  have ik: "Invoke 2 \<in> set ?es" by simp
  note t = short_circuit_stops_chain[OF b r k nc]
  note t1 = t[THEN conjunct2, THEN conjunct2, THEN conjunct1]
  note t3 = t[THEN conjunct2, THEN conjunct2, THEN conjunct2, THEN conjunct2, THEN conjunct1, THEN mp, OF am,
      THEN conjunct2, THEN mp, OF ik, THEN conjunct1]
  have c1: "Invoke 3 \<notin> set ?es" using t1 by simp
  have c2: "count_list ?es (Invoke 0) = 1" using t3 by simp
  have c3: "count_list ?es (Invoke 1) = 1" using t3 by simp
  have g: "\<not> calls_once (gated ! 0)" using gate_not_calls_once by (simp add: gated_def)
  show ?thesis using gated_run g nc c1 c2 c3 by simp
qed

text \<open>
  C9. In the chain built from any handlers, the node after the last handler is the
  terminal node: invoking it, which is what the last handler's continuation does,
  returns normally in every state and changes nothing but the ghost trace. In every
  invocation of the chain the terminal node's handler never calls its own
  continuation, so nothing past the terminal node is ever invoked; and when no
  handler panics by itself, the invocation returns normally.
\<close>

theorem terminal_continuation_is_noop:
  assumes "build N hs = (m, N')"
  shows "(\<exists>t. nth_node (length hs) N' m = Some t
            \<and> (\<forall>g i v. middleware_ServeHTTP (Suc g) N' i t v = Returned (log (Invoke i) v)))
         \<and> (\<exists>es. result_trace (middleware_ServeHTTP (Suc (length hs + f)) N' 0 m w) = Some (trace w @ es)
                \<and> Continue (length hs) \<notin> set es \<and> (\<forall>j. length hs < j \<longrightarrow> Invoke j \<notin> set es))
         \<and> ((\<forall>h \<in> set hs. panic_free h) \<longrightarrow>
               (\<exists>w'. middleware_ServeHTTP (Suc (length hs + f)) N' 0 m w = Returned w'))"
proof -
  have l: "linked (length N) N' m hs" using build_linked[OF assms] by simp
  then have eq: "middleware_ServeHTTP (Suc (length hs + f)) N' 0 m w = run hs 0 w"
    by (rule linked_run)
  from l have "linked (length N) N' m (hs @ [])" by simp
  from linked_nth_node[OF this] obtain t lo' where t: "nth_node (length hs) N' m = Some t"
    "linked lo' N' t []" by blast
  have "\<forall>g i v. middleware_ServeHTTP (Suc g) N' i t v = Returned (log (Invoke i) v)"
    using linked_run[OF t(2)] by simp
  then have p1: "\<exists>t. nth_node (length hs) N' m = Some t
            \<and> (\<forall>g i v. middleware_ServeHTTP (Suc g) N' i t v = Returned (log (Invoke i) v))"
    using t(1) by blast
  from run_shape[of w hs 0] obtain es where es: "adds w (run hs 0 w) es" "shape 0 (length hs) es"
    by blast
  have bd: "\<And>e. e \<in> set es \<Longrightarrow> depth e \<le> length hs \<and> e \<noteq> Continue (length hs)"
    using es(2) unfolding shape_def by auto
  have "Continue (length hs) \<notin> set es" using bd by blast
  moreover have "\<forall>j. length hs < j \<longrightarrow> Invoke j \<notin> set es"
  proof (intro allI impI notI)
    fix j assume "length hs < j" "Invoke j \<in> set es"
    then show False using bd[of "Invoke j"] by simp
  qed
  ultimately have p2: "\<exists>es. result_trace (middleware_ServeHTTP (Suc (length hs + f)) N' 0 m w) = Some (trace w @ es)
                \<and> Continue (length hs) \<notin> set es \<and> (\<forall>j. length hs < j \<longrightarrow> Invoke j \<notin> set es)"
    using es(1) eq by (auto simp: adds_def)
  have p3: "(\<forall>h \<in> set hs. panic_free h) \<longrightarrow>
               (\<exists>w'. middleware_ServeHTTP (Suc (length hs + f)) N' 0 m w = Returned w')"
    using run_panic_free[of hs 0 w] eq by simp
  show ?thesis using p1 p2 p3 by blast
qed

theorem terminal_continuation_is_noop_witness:
  "build [] [write_then_next ''1''] = (middleware example_n1, nodes example_H1)
   \<and> nth_node 1 (nodes example_H1) (middleware example_n1)
       = Some \<lparr>handler = Some (FuncVal (Some Return)), next = Some 1\<rparr>
   \<and> middleware_ServeHTTP 1 (nodes example_H1) 7
        \<lparr>handler = Some (FuncVal (Some Return)), next = Some 1\<rparr> \<lparr>trace = [], resp = ''x''\<rparr>
       = Returned \<lparr>trace = [Invoke 7], resp = ''x''\<rparr>
   \<and> panic_free (write_then_next ''1'')
   \<and> middleware_ServeHTTP 2 (nodes example_H1) 0 (middleware example_n1) \<lparr>trace = [], resp = ''''\<rparr>
       = Returned \<lparr>trace = [Invoke 0, Continue 0, Invoke 1], resp = ''1''\<rparr>"
proof -
  note t = terminal_continuation_is_noop[OF example_build, of 0 "\<lparr>trace = [], resp = ''''\<rparr>"]
  have n: "nth_node 1 (nodes example_H1) (middleware example_n1)
       = Some \<lparr>handler = Some (FuncVal (Some Return)), next = Some 1\<rparr>"
    by (simp add: example_n1_def example_H1_def)
  from t n have "\<forall>g i v. middleware_ServeHTTP (Suc g) (nodes example_H1) i
        \<lparr>handler = Some (FuncVal (Some Return)), next = Some 1\<rparr> v = Returned (log (Invoke i) v)"
    by simp
  then have a: "middleware_ServeHTTP 1 (nodes example_H1) 7
        \<lparr>handler = Some (FuncVal (Some Return)), next = Some 1\<rparr> \<lparr>trace = [], resp = ''x''\<rparr>
       = Returned \<lparr>trace = [Invoke 7], resp = ''x''\<rparr>"
    by (simp add: log_def)
  have pf: "panic_free (write_then_next ''1'')" by (simp add: write_then_next_def)
  have b: "middleware_ServeHTTP 2 (nodes example_H1) 0 (middleware example_n1) \<lparr>trace = [], resp = ''''\<rparr>
       = Returned \<lparr>trace = [Invoke 0, Continue 0, Invoke 1], resp = ''1''\<rparr>"
    by (simp add: example_H1_def example_n1_def eval_nat_numeral write_then_next_def
        HandlerFunc_ServeHTTP_def log_def)
  show ?thesis using example_build n a pf b by simp
qed

text \<open>
  C10. \<^verbatim>\<open>Use\<close> panics exactly on the nil interface value. Every non-nil value \<open>Some d\<close>,
  also one that wraps a nil pointer, is accepted: \<^verbatim>\<open>Use\<close> returns, the handlers are
  the former ones followed by it, the node at its position in the new chain holds it,
  and when the handlers before it each call their continuation exactly once, an
  invocation of the chain invokes it, once, right after them.
\<close>

theorem use_rejects_only_nil:
  assumes hs: "hs = elems (arrays H) (handlers n)"
  shows "((\<exists>msg st. Use grow H n h = Panicked msg st) \<longleftrightarrow> h = None)
     \<and> (wf_slice (arrays H) (handlers n) \<longrightarrow>
          (\<exists>n' H'. Use grow H n (Some d) = Returned (n', H')
             \<and> elems (arrays H') (handlers n') = hs @ [Some d]
             \<and> (\<exists>t. nth_node (length hs) (nodes H') (middleware n') = Some t
                     \<and> handler t = Some d)
             \<and> ((\<forall>g \<in> set hs. calls_once g) \<longrightarrow>
                  (\<exists>es. result_trace
                          (middleware_ServeHTTP (Suc (Suc (length hs) + f)) (nodes H') 0 (middleware n') w)
                        = Some (trace w @ concat (map (\<lambda>j. [Invoke j, Continue j]) [0 ..< length hs])
                                  @ Invoke (length hs) # es)
                      \<and> Invoke (length hs) \<notin> set es))))"
proof (intro conjI impI)
  show "(\<exists>msg st. Use grow H n h = Panicked msg st) \<longleftrightarrow> h = None"
    by (cases h) (auto simp: Use_def split: prod.splits)
next
  assume wf: "wf_slice (arrays H) (handlers n)"
  obtain n' H' where u: "Use grow H n (Some d) = Returned (n', H')"
    by (cases "Use grow H n (Some d)") (auto simp: Use_def split: prod.splits)
  have e: "elems (arrays H') (handlers n') = hs @ [Some d]"
    using Use_wf[OF u wf] hs by simp
  have l: "linked (length (nodes H)) (nodes H') (middleware n') (hs @ [Some d])"
    using Use_Returned[OF u] e by simp
  from linked_nth_node[OF l] obtain t lo' where t: "nth_node (length hs) (nodes H') (middleware n') = Some t"
    "linked lo' (nodes H') t [Some d]" by blast
  have ht: "handler t = Some d" using t(2) by simp
  have tr: "\<exists>es. result_trace
                (middleware_ServeHTTP (Suc (Suc (length hs) + f)) (nodes H') 0 (middleware n') w)
              = Some (trace w @ concat (map (\<lambda>j. [Invoke j, Continue j]) [0 ..< length hs])
                        @ Invoke (length hs) # es)
            \<and> Invoke (length hs) \<notin> set es"
    if co: "\<forall>g \<in> set hs. calls_once g"
  proof -
    have "middleware_ServeHTTP (Suc (length (hs @ [Some d]) + f)) (nodes H') 0 (middleware n') w
        = run (hs @ [Some d]) 0 w"
      using l by (rule linked_run)
    then have eq: "middleware_ServeHTTP (Suc (Suc (length hs) + f)) (nodes H') 0 (middleware n') w
        = run (hs @ [Some d]) 0 w" by simp
    from run_prefix_once[OF co, of w 0 "[Some d]"]
    obtain v where v: "trace v = trace w @ passes 0 (length hs)"
      "result_trace (run (hs @ [Some d]) 0 w) = result_trace (run [Some d] (length hs) v)"
      by auto
    from run_Some_shape[of v d "[]" "length hs"]
    obtain es where es: "adds v (run [Some d] (length hs) v) (Invoke (length hs) # es)"
      "inner (length hs) 0 es" by auto
    have "Invoke (length hs) \<notin> set es" using es(2) unfolding inner_def by blast
    moreover have "result_trace (run (hs @ [Some d]) 0 w)
        = Some (trace w @ passes 0 (length hs) @ Invoke (length hs) # es)"
      using es(1) v by (simp add: adds_def)
    ultimately show ?thesis using eq by (auto simp: passes_def)
  qed
  show "\<exists>n' H'. Use grow H n (Some d) = Returned (n', H')
             \<and> elems (arrays H') (handlers n') = hs @ [Some d]
             \<and> (\<exists>t. nth_node (length hs) (nodes H') (middleware n') = Some t
                     \<and> handler t = Some d)
             \<and> ((\<forall>g \<in> set hs. calls_once g) \<longrightarrow>
                  (\<exists>es. result_trace
                          (middleware_ServeHTTP (Suc (Suc (length hs) + f)) (nodes H') 0 (middleware n') w)
                        = Some (trace w @ concat (map (\<lambda>j. [Invoke j, Continue j]) [0 ..< length hs])
                                  @ Invoke (length hs) # es)
                      \<and> Invoke (length hs) \<notin> set es))"
    using u e t(1) ht tr by blast
qed

theorem use_rejects_only_nil_witness:
  "wf_slice (arrays example_H1) (handlers example_n1)
   \<and> calls_once (write_then_next ''1'')
   \<and> Use double example_H1 example_n1 None
       = Panicked ''handler cannot be nil'' (example_n1, example_H1)
   \<and> Use double example_H1 example_n1 nil_ptr_handler = Returned (example_n3, example_H3)
   \<and> elems (arrays example_H3) (handlers example_n3) = [write_then_next ''1'', nil_ptr_handler]
   \<and> nth_node 1 (nodes example_H3) (middleware example_n3)
       = Some \<lparr>handler = nil_ptr_handler, next = Some 3\<rparr>
   \<and> middleware_ServeHTTP 3 (nodes example_H3) 0 (middleware example_n3) \<lparr>trace = [], resp = ''''\<rparr>
       = Panicked ''nil receiver'' \<lparr>trace = [Invoke 0, Continue 0, Invoke 1], resp = ''1''\<rparr>"
proof -
  have wf: "wf_slice (arrays example_H1) (handlers example_n1)"
    by (simp add: wf_slice_def example_H1_def example_n1_def example_s0_def)
  have e1: "elems (arrays example_H1) (handlers example_n1) = [write_then_next ''1'']"
    by (simp add: elems_def example_H1_def example_n1_def example_s0_def)
  have co: "calls_once (write_then_next ''1'')" by (simp add: write_then_next_def)
  have u: "Use double example_H1 example_n1 nil_ptr_handler = Returned (example_n3, example_H3)"
    by (simp add: Use_def append1_def double_def example_s0_def example_n1_def example_H1_def
        example_n3_def example_H3_def elems_def voidMiddleware_def nil_ptr_handler_def)
  note t = use_rejects_only_nil[OF e1[symmetric], where grow = double and h = None
      and d = "Impl True (Panic ''nil receiver'')" and f = 0 and w = "\<lparr>trace = [], resp = ''''\<rparr>"]
  have p: "Use double example_H1 example_n1 None
       = Panicked ''handler cannot be nil'' (example_n1, example_H1)"
  proof -
    from t obtain msg st where "Use double example_H1 example_n1 None = Panicked msg st" by blast
    then show ?thesis by (simp add: Use_def)
  qed
  have e3: "elems (arrays example_H3) (handlers example_n3) = [write_then_next ''1'', nil_ptr_handler]"
    using t wf u by (simp add: nil_ptr_handler_def)
  have n: "nth_node 1 (nodes example_H3) (middleware example_n3)
       = Some \<lparr>handler = nil_ptr_handler, next = Some 3\<rparr>"
    by (simp add: example_n3_def example_H3_def)
  have r: "middleware_ServeHTTP 3 (nodes example_H3) 0 (middleware example_n3) \<lparr>trace = [], resp = ''''\<rparr>
       = Panicked ''nil receiver'' \<lparr>trace = [Invoke 0, Continue 0, Invoke 1], resp = ''1''\<rparr>"
    by (simp add: example_H3_def example_n3_def eval_nat_numeral write_then_next_def
        nil_ptr_handler_def HandlerFunc_ServeHTTP_def log_def)
  show ?thesis using wf co p u e3 n r by simp
qed


end
